theory Spec2Isabelle
  imports Complex_Main "HOL-Library.Word" "HOL-Library.Log_Nat"
begin


section \<open>Double-precision arithmetic\<close>

text \<open>
  The tuner computes with C++ \<^verbatim>\<open>double\<close> values. The number of iterations of the
  band sweep depends on how the repeated addition \<^verbatim>\<open>freq += 0.2\<close> rounds, so the
  arithmetic is modelled as IEEE 754 binary64 arithmetic. A double is a finite value, given
  by the rational number it denotes, an infinity, or a NaN. Every operation returns the
  exact result rounded to nearest, ties to even, and is taken to be rounded to binary64
  with no wider intermediate format. Decimal literals of the source are rounded the same
  way.

  The two zeros are not told apart, and neither are the NaNs: the program compares and
  copies doubles, and it divides only by the constant \<^verbatim>\<open>1e6\<close> and by a positive count.
\<close>

datatype double = Finite rat | Pos_inf | Neg_inf | NaN

definition ilog2 :: "rat \<Rightarrow> int" where
  \<comment> \<open>the binary exponent of \<open>x \<noteq> 0\<close>: \<open>2^e \<le> |x| < 2^(e+1)\<close>\<close>
  "ilog2 x =
     (if 1 \<le> \<bar>x\<bar> then bitlen \<lfloor>\<bar>x\<bar>\<rfloor> - 1 else - bitlen (\<lceil>1 / \<bar>x\<bar>\<rceil> - 1))"

definition round_ne :: "rat \<Rightarrow> int" where
  \<comment> \<open>the nearest integer, a tie going to the even one\<close>
  "round_ne x =
     (let n = \<lfloor>x\<rfloor>; r = x - of_int n in
      if r < 1 / 2 then n else if 1 / 2 < r then n + 1 else if even n then n else n + 1)"

definition ulp_exponent :: "rat \<Rightarrow> int" where
  \<comment> \<open>the exponent of the unit in the last place: 53 significant bits for a normal number,
      the fixed step \<open>2^-1074\<close> below \<open>2^-1022\<close>\<close>
  "ulp_exponent x = max (ilog2 x - 52) (- 1074)"

definition fl :: "rat \<Rightarrow> rat" where
  \<comment> \<open>rounding to a multiple of the unit in the last place, before the test for overflow\<close>
  "fl x =
     (if x = 0 then 0
      else let q = 2 powi (ulp_exponent x) in of_int (round_ne (x / q)) * q)"

definition DBL_MAX :: rat where
  \<comment> \<open>the largest finite double, \<open>(2 - 2^-52) * 2^1023\<close>\<close>
  "DBL_MAX = (2 ^ 53 - 1) * 2 ^ 971"

definition to_double :: "rat \<Rightarrow> double" where
  \<comment> \<open>the double nearest to \<open>x\<close>; a rounded value beyond \<open>DBL_MAX\<close> overflows to an
      infinity\<close>
  "to_double x =
     (let y = fl x in
      if DBL_MAX < y then Pos_inf else if y < - DBL_MAX then Neg_inf else Finite y)"

definition is_double :: "rat \<Rightarrow> bool" where
  \<comment> \<open>the rational numbers that the finite doubles denote\<close>
  "is_double x = (fl x = x \<and> \<bar>x\<bar> \<le> DBL_MAX)"

definition inf_of_sign :: "bool \<Rightarrow> double" where
  "inf_of_sign negative = (if negative then Neg_inf else Pos_inf)"

fun fadd :: "double \<Rightarrow> double \<Rightarrow> double" where
  "fadd (Finite x) (Finite y) = to_double (x + y)"
| "fadd NaN b = NaN"
| "fadd a NaN = NaN"
| "fadd Pos_inf Neg_inf = NaN"
| "fadd Neg_inf Pos_inf = NaN"
| "fadd Pos_inf b = Pos_inf"
| "fadd a Pos_inf = Pos_inf"
| "fadd Neg_inf b = Neg_inf"
| "fadd a Neg_inf = Neg_inf"

fun fmul :: "double \<Rightarrow> double \<Rightarrow> double" where
  "fmul (Finite x) (Finite y) = to_double (x * y)"
| "fmul NaN b = NaN"
| "fmul a NaN = NaN"
| "fmul (Finite x) Pos_inf = (if x = 0 then NaN else inf_of_sign (x < 0))"
| "fmul (Finite x) Neg_inf = (if x = 0 then NaN else inf_of_sign (0 < x))"
| "fmul Pos_inf (Finite y) = (if y = 0 then NaN else inf_of_sign (y < 0))"
| "fmul Neg_inf (Finite y) = (if y = 0 then NaN else inf_of_sign (0 < y))"
| "fmul Pos_inf Pos_inf = Pos_inf"
| "fmul Pos_inf Neg_inf = Neg_inf"
| "fmul Neg_inf Pos_inf = Neg_inf"
| "fmul Neg_inf Neg_inf = Pos_inf"

text \<open>
  Division. A zero divisor is undefined behaviour of the C++ program and has no result
  here; the callers turn it into a fault.
\<close>

fun fdiv :: "double \<Rightarrow> double \<Rightarrow> double option" where
  "fdiv a (Finite y) =
     (if y = 0 then None
      else Some (case a of
          Finite x \<Rightarrow> to_double (x / y)
        | Pos_inf \<Rightarrow> inf_of_sign (y < 0)
        | Neg_inf \<Rightarrow> inf_of_sign (0 < y)
        | NaN \<Rightarrow> NaN))"
| "fdiv a NaN = Some NaN"
| "fdiv a b = Some (case a of Finite x \<Rightarrow> Finite 0 | _ \<Rightarrow> NaN)"

text \<open>
  The comparisons \<^verbatim>\<open><\<close> and \<^verbatim>\<open><=\<close> of doubles: false as soon as one side is a NaN.
\<close>

instantiation double :: ord
begin

fun less_double :: "double \<Rightarrow> double \<Rightarrow> bool" where
  "less_double (Finite x) (Finite y) = (x < y)"
| "less_double NaN b = False"
| "less_double a NaN = False"
| "less_double Pos_inf b = False"
| "less_double a Neg_inf = False"
| "less_double a Pos_inf = True"
| "less_double Neg_inf b = True"

definition less_eq_double :: "double \<Rightarrow> double \<Rightarrow> bool" where
  "less_eq_double a b = (a < b \<or> (a = b \<and> a \<noteq> NaN))"

instance ..

end

definition double_of_uint :: "32 word \<Rightarrow> double" where
  \<comment> \<open>the conversion of an \<^verbatim>\<open>unsigned int\<close> operand; exact, since \<open>2^32 < 2^53\<close>\<close>
  "double_of_uint n = Finite (of_nat (unat n))"


section \<open>The tuner context and its environment\<close>

text \<open>\<^verbatim>\<open>const unsigned int MAX_FM_STATIONS = 100;\<close>\<close>

definition MAX_FM_STATIONS :: nat where
  "MAX_FM_STATIONS = 100"

text \<open>
  \<^verbatim>\<open>struct rtl_ctx\<close>. Of the flowgraph only what the control functions read and write
  is kept: whether the top block runs, and the centre frequency (in Hz) that the source
  block was last given and reports back. \<open>station_list\<close> is the array of
  \<open>MAX_FM_STATIONS\<close> doubles. The mutex has no state in a sequential model.
\<close>

record rtl_ctx =
  running :: bool
  center_freq :: double
  station_list :: "double list"
  station_list_len :: "32 word"

text \<open>
  A reading of \<^verbatim>\<open>high_resolution_clock::now()\<close> is a count of nanoseconds held in a
  signed 64-bit integer.
\<close>

type_synonym time_point = "64 word"

text \<open>
  What the functions observe from outside and what they leave behind:
  \<^item> \<open>clock\<close>: the values that successive calls of
    \<^verbatim>\<open>high_resolution_clock::now()\<close> return. Nothing is assumed about them. A run
    that needs more readings than the list holds has not finished.
  \<^item> \<open>level\<close>, \<open>level_calls\<close>: the value that the \<open>k\<close>-th call of
    \<^verbatim>\<open>avg_magnitude->level()\<close> returns, and the number of calls made so far.
  \<^item> \<open>stack\<close>: the indeterminate contents of uninitialised automatic storage.
  \<^item> \<open>slept_ms\<close>: the total time asked of \<^verbatim>\<open>sleep_for\<close>.
  \<^item> \<open>stdout\<close>: the lines printed, oldest first.
\<close>

datatype event =
    Starting_scan
  | Found_station double double
  | Finished_scan
  | Error_message string

record world =
  clock :: "time_point list"
  level :: "nat \<Rightarrow> double"
  level_calls :: nat
  stack :: "nat \<Rightarrow> double"
  slept_ms :: nat
  stdout :: "event list"

text \<open>
  A pointer to a context is \<open>None\<close> when null. Undefined behaviour of the C++ program
  is a fault: the call does not return normally.
\<close>

datatype fault = Null_dereference | Buffer_overflow | Division_by_zero

definition printf :: "event \<Rightarrow> world \<Rightarrow> world" where
  "printf e w = w\<lparr>stdout := stdout w @ [e]\<rparr>"

definition sleep_for :: "nat \<Rightarrow> world \<Rightarrow> world" where
  "sleep_for ms w = w\<lparr>slept_ms := slept_ms w + ms\<rparr>"

definition now :: "world \<Rightarrow> (time_point \<times> world) option" where
  "now w = (case clock w of [] \<Rightarrow> None | t # ts \<Rightarrow> Some (t, w\<lparr>clock := ts\<rparr>))"

definition avg_level :: "world \<Rightarrow> double \<times> world" where
  "avg_level w = (level w (level_calls w), w\<lparr>level_calls := Suc (level_calls w)\<rparr>)"

text \<open>
  \<^verbatim>\<open>duration_cast<milliseconds>(t - start).count()\<close>. The difference of the two counts
  is the 64-bit subtraction, which wraps around when the readings are more than \<open>2^63\<close>
  nanoseconds apart; it is read as a signed number and divided by \<open>10^6\<close> with
  truncation towards zero. The result is compared as a signed number with
  \<^verbatim>\<open>MEASURE_MS\<close>.
\<close>

definition elapsed_ms :: "time_point \<Rightarrow> time_point \<Rightarrow> int" where
  "elapsed_ms start t =
     (let d = sint (t - start) in if 0 \<le> d then d div 1000000 else - ((- d) div 1000000))"

definition memcpy :: "double list \<Rightarrow> double list \<Rightarrow> nat \<Rightarrow> fault + double list" where
  \<comment> \<open>copies the first \<open>n\<close> doubles of \<open>src\<close> over the first \<open>n\<close> of \<open>dst\<close>\<close>
  "memcpy dst src n =
     (if n \<le> length dst \<and> n \<le> length src then Inr (take n src @ drop n dst)
      else Inl Buffer_overflow)"


section \<open>Setting and reading the frequency\<close>

text \<open>
  \<^verbatim>\<open>set_center_freq(freq * 1e6)\<close> and \<^verbatim>\<open>get_center_freq() / 1e6\<close>. Neither function
  tests \<open>tuner\<close>.
\<close>

definition rtl_set_fm :: "rtl_ctx option \<Rightarrow> double \<Rightarrow> fault + rtl_ctx" where
  "rtl_set_fm tuner freq =
     (case tuner of
        None \<Rightarrow> Inl Null_dereference
      | Some ctx \<Rightarrow> Inr (ctx\<lparr>center_freq := fmul freq (to_double 1000000)\<rparr>))"

definition rtl_get_fm :: "rtl_ctx option \<Rightarrow> fault + double" where
  "rtl_get_fm tuner =
     (case tuner of
        None \<Rightarrow> Inl Null_dereference
      | Some ctx \<Rightarrow>
          (case fdiv (center_freq ctx) (to_double 1000000) of
             None \<Rightarrow> Inl Division_by_zero
           | Some f \<Rightarrow> Inr f))"


section \<open>The band scan\<close>

text \<open>The constants of \<^verbatim>\<open>scan_fm_stations\<close> and the literals of its loop header.\<close>

definition SWITCH_DELAY_MS :: nat where
  "SWITCH_DELAY_MS = 1000"

definition MEASURE_MS :: int where
  "MEASURE_MS = 200"

definition POWER_THRESHOLD :: double where
  "POWER_THRESHOLD = to_double (2 / 10000)"

definition BAND_START :: double where
  "BAND_START = to_double (879 / 10)"

definition BAND_END :: double where
  "BAND_END = to_double (1079 / 10)"

definition BAND_STEP :: double where
  "BAND_STEP = to_double (2 / 10)"

text \<open>
  The measurement loop: while the time elapsed since \<open>start\<close> is below \<open>MEASURE_MS\<close>,
  add a reading to \<open>sample_sum\<close> and count it in the 32-bit \<open>num_samples\<close>. Every test
  of the loop condition reads the clock once.
\<close>

function measure_loop ::
  "time_point \<Rightarrow> double \<times> 32 word \<Rightarrow> world \<Rightarrow> ((double \<times> 32 word) \<times> world) option" where
  "measure_loop start (sample_sum, num_samples) w =
     (case now w of
        None \<Rightarrow> None
      | Some (t, w1) \<Rightarrow>
          if elapsed_ms start t < MEASURE_MS then
            (case avg_level w1 of
               (v, w2) \<Rightarrow> measure_loop start (fadd sample_sum v, num_samples + 1) w2)
          else Some ((sample_sum, num_samples), w1))"
  by pat_completeness auto

termination
  by (relation "measure (\<lambda>(start, acc, w). length (clock w))")
    (auto simp: now_def avg_level_def split: list.splits)

definition measure_window :: "world \<Rightarrow> ((double \<times> 32 word) \<times> world) option" where
  \<comment> \<open>lines 79 to 85: the accumulators, the start time, the loop\<close>
  "measure_window w =
     (case now w of
        None \<Rightarrow> None
      | Some (start, w1) \<Rightarrow> measure_loop start (Finite 0, 0) w1)"

text \<open>
  The body of the sweep (lines 77 to 92) for one frequency. \<open>rtl_set_fm\<close> dereferences
  \<open>tuner\<close>, so the pointer is not null where the level is read. The local array
  \<open>stations_out\<close> has \<open>MAX_FM_STATIONS\<close> slots; a store at or past that index is a
  buffer overflow.
\<close>

definition scan_step ::
  "rtl_ctx option \<Rightarrow> double \<Rightarrow> 32 word \<times> double list \<Rightarrow> world \<Rightarrow>
     (fault + rtl_ctx \<times> (32 word \<times> double list) \<times> world) option" where
  "scan_step tuner freq st w =
     (case rtl_set_fm tuner freq of
        Inl f \<Rightarrow> Some (Inl f)
      | Inr ctx \<Rightarrow>
          (case measure_window (sleep_for SWITCH_DELAY_MS w) of
             None \<Rightarrow> None
           | Some ((sample_sum, num_samples), w2) \<Rightarrow>
               if 0 < num_samples then
                 (case fdiv sample_sum (double_of_uint num_samples) of
                    None \<Rightarrow> Some (Inl Division_by_zero)
                  | Some sample_avg \<Rightarrow>
                      if POWER_THRESHOLD < sample_avg then
                        (case st of
                           (found_stations, stations_out) \<Rightarrow>
                             if unat found_stations < MAX_FM_STATIONS then
                               Some (Inr (ctx,
                                 (found_stations + 1, stations_out[unat found_stations := freq]),
                                 printf (Found_station freq sample_avg) w2))
                             else Some (Inl Buffer_overflow))
                      else Some (Inr (ctx, st, w2)))
               else Some (Inr (ctx, st, w2))))"

text \<open>
  \<^verbatim>\<open>for (double freq = 87.9; freq <= 107.9; freq += 0.2)\<close>. Each iteration reads the
  clock at least once, so the loop is defined by recursion on the readings left.
\<close>

function sweep ::
  "double \<Rightarrow> rtl_ctx option \<Rightarrow> 32 word \<times> double list \<Rightarrow> world \<Rightarrow>
     (fault + rtl_ctx option \<times> (32 word \<times> double list) \<times> world) option" where
  "sweep freq tuner st w =
     (if freq \<le> BAND_END then
        (case scan_step tuner freq st w of
           None \<Rightarrow> None
         | Some (Inl f) \<Rightarrow> Some (Inl f)
         | Some (Inr (ctx, st', w')) \<Rightarrow> sweep (fadd freq BAND_STEP) (Some ctx) st' w')
      else Some (Inr (tuner, st, w)))"
  by pat_completeness auto

lemma measure_loop_Nil:
  "clock w = [] \<Longrightarrow> measure_loop start acc w = None"
  by (cases acc) (simp add: now_def)

lemma measure_loop_Cons:
  "clock w = t # ts \<Longrightarrow>
   measure_loop start (s, n) w =
     (if elapsed_ms start t < MEASURE_MS then
        measure_loop start (fadd s (level w (level_calls w)), n + 1)
          (w\<lparr>clock := ts, level_calls := Suc (level_calls w)\<rparr>)
      else Some ((s, n), w\<lparr>clock := ts\<rparr>))"
  by (simp add: now_def avg_level_def)

declare measure_loop.simps [simp del]

lemma measure_loop_clock:
  "measure_loop start acc w = Some (r, w') \<Longrightarrow> length (clock w') < length (clock w)"
proof (induction "clock w" arbitrary: w acc)
  case Nil
  then show ?case by (simp add: measure_loop_Nil)
next
  case (Cons t ts)
  obtain s n where acc: "acc = (s, n)" by (cases acc)
  have c: "clock w = t # ts" using Cons.hyps(2) by simp
  show ?case
  proof (cases "elapsed_ms start t < MEASURE_MS")
    case True
    let ?w2 = "w\<lparr>clock := ts, level_calls := Suc (level_calls w)\<rparr>"
    from Cons.prems True
    have "measure_loop start (fadd s (level w (level_calls w)), n + 1) ?w2 = Some (r, w')"
      by (simp add: acc measure_loop_Cons [OF c])
    from Cons.hyps(1) [OF _ this] have "length (clock w') < length ts" by simp
    then show ?thesis by (simp add: c)
  next
    case False
    with Cons.prems show ?thesis
      by (auto simp: acc measure_loop_Cons [OF c] c)
  qed
qed

lemma scan_step_clock:
  "scan_step tuner freq st w = Some (Inr (ctx, st', w')) \<Longrightarrow>
   length (clock w') < length (clock w)"
proof -
  assume a: "scan_step tuner freq st w = Some (Inr (ctx, st', w'))"
  have m: "measure_window v = Some (r, v') \<Longrightarrow> length (clock v') < length (clock v)"
    for v r v'
    by (cases "clock v")
      (auto simp: measure_window_def now_def dest!: measure_loop_clock)
  from a obtain r w2 where
    w2: "measure_window (sleep_for SWITCH_DELAY_MS w) = Some (r, w2)"
    and c: "clock w' = clock w2"
    by (auto simp: scan_step_def printf_def
        split: sum.splits option.splits prod.splits if_splits)
  from m [OF w2] c show ?thesis by (simp add: sleep_for_def)
qed

termination sweep
  by (relation "measure (\<lambda>(freq, tuner, st, w). length (clock w))")
    (auto dest: scan_step_clock)

declare sweep.simps [simp del]

text \<open>
  \<^verbatim>\<open>scan_fm_stations\<close>: the sweep starts with no station found and an uninitialised
  local array; afterwards the first \<open>found_stations\<close> entries are copied into the
  context and the length is stored.
\<close>

definition uninitialised_array :: "world \<Rightarrow> double list" where
  "uninitialised_array w = map (stack w) [0..<MAX_FM_STATIONS]"

definition scan_fm_stations ::
  "rtl_ctx option \<Rightarrow> world \<Rightarrow> (fault + rtl_ctx \<times> world) option" where
  "scan_fm_stations tuner w =
     (case sweep BAND_START tuner (0, uninitialised_array w) (printf Starting_scan w) of
        None \<Rightarrow> None
      | Some (Inl f) \<Rightarrow> Some (Inl f)
      | Some (Inr (tuner', (found_stations, stations_out), w1)) \<Rightarrow>
          (case tuner' of
             None \<Rightarrow> Some (Inl Null_dereference)
           | Some ctx \<Rightarrow>
               (case memcpy (station_list ctx) stations_out (unat found_stations) of
                  Inl f \<Rightarrow> Some (Inl f)
                | Inr sl \<Rightarrow>
                    Some (Inr (ctx\<lparr>station_list := sl, station_list_len := found_stations\<rparr>,
                      printf Finished_scan w1)))))"

text \<open>
  \<^verbatim>\<open>rtl_get_fm_stations\<close>: scans, then copies \<open>station_list_len\<close> entries into the
  caller's buffer \<open>stations_out\<close> and returns that length. The result holds the count,
  the buffer, the context and the world.
\<close>

definition rtl_get_fm_stations ::
  "rtl_ctx option \<Rightarrow> double list \<Rightarrow> world \<Rightarrow>
     (fault + 32 word \<times> double list \<times> rtl_ctx \<times> world) option" where
  "rtl_get_fm_stations tuner stations_out w =
     (case scan_fm_stations tuner w of
        None \<Rightarrow> None
      | Some (Inl f) \<Rightarrow> Some (Inl f)
      | Some (Inr (ctx, w1)) \<Rightarrow>
          (case memcpy stations_out (station_list ctx) (unat (station_list_len ctx)) of
             Inl f \<Rightarrow> Some (Inl f)
           | Inr buf \<Rightarrow> Some (Inr (station_list_len ctx, buf, ctx, w1))))"


section \<open>Starting, stopping and destroying a tuner\<close>

text \<open>
  A call either returns or, for \<^verbatim>\<open>rtl_start_fm\<close> on a valid tuner, blocks in
  \<^verbatim>\<open>top_block->wait()\<close>. Both carry the context the pointer refers to afterwards
  (\<open>None\<close> when there is none) and the world.
\<close>

datatype call = Returned "rtl_ctx option" world | Blocked "rtl_ctx option" world

definition rtl_destroy_tuner :: "rtl_ctx option \<Rightarrow> world \<Rightarrow> call" where
  "rtl_destroy_tuner tuner w =
     (case tuner of
        None \<Rightarrow>
          Returned None (printf (Error_message ''Error: rtl_destroy_tuner - null pointer'') w)
      | Some ctx \<Rightarrow> Returned None w)"

definition rtl_start_fm :: "rtl_ctx option \<Rightarrow> world \<Rightarrow> call" where
  "rtl_start_fm tuner w =
     (case tuner of
        None \<Rightarrow>
          Returned None (printf (Error_message ''Error: rtl_start_fm - no tuner specified'') w)
      | Some ctx \<Rightarrow> Blocked (Some (ctx\<lparr>running := True\<rparr>)) w)"

definition rtl_stop_fm :: "rtl_ctx option \<Rightarrow> world \<Rightarrow> call" where
  "rtl_stop_fm tuner w =
     (case tuner of
        None \<Rightarrow>
          Returned None (printf (Error_message ''Error: rtl_stop_fm - no tuner specified'') w)
      | Some ctx \<Rightarrow> Returned (Some (ctx\<lparr>running := False\<rparr>)) w)"


section \<open>The sweep frequencies and the detection rule\<close>

text \<open>
  \<open>sweep_freq k\<close> is the loop variable \<open>freq\<close> after \<open>k\<close> increments.
\<close>

primrec sweep_freq :: "nat \<Rightarrow> double" where
  "sweep_freq 0 = BAND_START"
| "sweep_freq (Suc k) = fadd (sweep_freq k) BAND_STEP"

text \<open>
  What the loop body computes and decides for the readings \<open>xs\<close> of a window. Its
  counter is an \<^verbatim>\<open>unsigned int\<close>, so the count it tests and divides by is the number of
  readings modulo \<open>2^32\<close>. The mean is the running sum, every addition rounded, divided
  by that count.
\<close>

definition computed_mean :: "double list \<Rightarrow> double option" where
  "computed_mean xs =
     fdiv (foldl fadd (Finite 0) xs) (double_of_uint (of_nat (length xs)))"

definition step_records :: "double list \<Rightarrow> bool" where
  "step_records xs =
     ((0 :: 32 word) < of_nat (length xs) \<and>
      (case computed_mean xs of None \<Rightarrow> False | Some sample_avg \<Rightarrow> POWER_THRESHOLD < sample_avg))"

text \<open>
  The detection rule in the words of the specification, for finite readings: the window
  produced at least one sample, and the arithmetic mean of the samples is strictly greater
  than the threshold \<open>0.0002\<close>.
\<close>

definition arithmetic_mean :: "rat list \<Rightarrow> rat" where
  "arithmetic_mean rs = sum_list rs / of_nat (length rs)"

definition mean_exceeds_threshold :: "rat list \<Rightarrow> bool" where
  "mean_exceeds_threshold rs = (rs \<noteq> [] \<and> 2 / 10000 < arithmetic_mean rs)"

text \<open>
  A measurement window as the clock shows it: the start reading, the readings of the
  loop tests that pass, and the reading of the test that ends the loop.
\<close>

type_synonym window = "time_point \<times> time_point list \<times> time_point"

definition window_clock :: "window \<Rightarrow> time_point list" where
  "window_clock win = (case win of (s, ts, e) \<Rightarrow> s # ts @ [e])"

definition window_ok :: "window \<Rightarrow> bool" where
  "window_ok win =
     (case win of
        (s, ts, e) \<Rightarrow>
          list_all (\<lambda>t. elapsed_ms s t < MEASURE_MS) ts \<and> \<not> elapsed_ms s e < MEASURE_MS)"

definition window_size :: "window \<Rightarrow> nat" where
  \<comment> \<open>the number of readings taken in the window\<close>
  "window_size win = length (fst (snd win))"

definition window_samples :: "(nat \<Rightarrow> double) \<Rightarrow> nat \<Rightarrow> window \<Rightarrow> double list" where
  \<comment> \<open>the readings of a window whose first reading is call number \<open>i\<close>\<close>
  "window_samples lev i win = map lev [i..<i + window_size win]"

text \<open>
  The frequencies chosen by a rule \<open>P\<close> on the readings, when the sweep is at its
  \<open>k\<close>-th frequency, \<open>i\<close> readings have been taken, and the windows \<open>wins\<close> follow.
\<close>

fun stations_by ::
  "(double list \<Rightarrow> bool) \<Rightarrow> (nat \<Rightarrow> double) \<Rightarrow> nat \<Rightarrow> nat \<Rightarrow> window list \<Rightarrow> double list" where
  "stations_by P lev k i [] = []"
| "stations_by P lev k i (win # wins) =
     (if P (window_samples lev i win) then [sweep_freq k] else [])
       @ stations_by P lev (Suc k) (i + window_size win) wins"

text \<open>
  The entries of the station list that count: the first \<open>station_list_len\<close> of them.
\<close>

definition stations_found :: "rtl_ctx \<Rightarrow> double list" where
  "stations_found ctx = take (unat (station_list_len ctx)) (station_list ctx)"

text \<open>
  Bounds on the rounding error of a running sum of at most \<open>2^32\<close> non-negative terms:
  the relative error grows by at most \<open>REL_SLACK\<close> with every addition, and an addition
  whose result is below \<open>2^-1022\<close> adds at most \<open>ABS_SLACK\<close>.
\<close>

definition REL_SLACK :: rat where
  "REL_SLACK = (1 + 1 / 2 ^ 20) / 2 ^ 53"

definition ABS_SLACK :: rat where
  "ABS_SLACK = 1 / 2 ^ 1074"


section \<open>A reference tuner and paced clocks\<close>

text \<open>
  A context tuned to 101.9 MHz, as \<^verbatim>\<open>create_fm_device\<close> leaves the source block, and
  worlds whose clock is paced as the scan expects: window \<open>i\<close> starts \<open>1.2 i\<close> seconds
  in, \<open>n\<close> loop tests follow one millisecond apart, and the next test comes 200 ms after
  the start. The level is constant.
\<close>

definition sample_ctx :: rtl_ctx where
  "sample_ctx =
     \<lparr>running = True, center_freq = Finite 101900000,
      station_list = replicate MAX_FM_STATIONS (Finite 0), station_list_len = 0\<rparr>"

definition paced_window :: "nat \<Rightarrow> nat \<Rightarrow> window" where
  "paced_window n i =
     (word_of_int (int i * 1200000000),
      map (\<lambda>j. word_of_int (int i * 1200000000 + int j * 1000000)) [1..<Suc n],
      word_of_int (int i * 1200000000 + 200000000))"

definition paced_windows :: "(nat \<Rightarrow> nat) \<Rightarrow> window list" where
  "paced_windows sizes = map (\<lambda>i. paced_window (sizes i) i) [0..<100]"

definition paced_world :: "double \<Rightarrow> (nat \<Rightarrow> nat) \<Rightarrow> world" where
  "paced_world c sizes =
     \<lparr>clock = concat (map window_clock (paced_windows sizes)),
      level = (\<lambda>k. c), level_calls = 0, stack = (\<lambda>k. Finite 0), slept_ms = 0, stdout = []\<rparr>"

definition zero_buffer :: "double list" where
  \<comment> \<open>a caller's buffer of \<open>MAX_FM_STATIONS\<close> doubles\<close>
  "zero_buffer = replicate 100 (Finite 0)"

text \<open>
  \<open>edge_level\<close> is the largest double below the threshold \<open>0.0002\<close>, and
  \<open>over_level\<close> the smallest double above it. \<open>first_stalled\<close> gives every window
  three readings except the first, which gets none: the thread is held for 200 ms between
  taking the start time and the first loop test.
\<close>

definition edge_level :: rat where
  "edge_level = 7378697629483820 / 2 ^ 65"

definition over_level :: rat where
  "over_level = 7378697629483822 / 2 ^ 65"

definition first_stalled :: "nat \<Rightarrow> nat" where
  "first_stalled i = (if i = 0 then 0 else 3)"


section \<open>Properties of the rounding and the sweep frequencies\<close>

text \<open>
  \<open>fl\<close> is within half a unit in the last place of its argument: a relative error of
  at most \<open>2^-53\<close> for a normal number (\<open>fl_error_normal\<close>) and an absolute error of
  at most \<open>2^-1075\<close> below (\<open>fl_error\<close>). \<open>fl_eval\<close> and \<open>to_double_eval\<close> give
  the rounding of a number from its exponent and the significand next to it, so that the
  constants of the program and the 101 values of \<open>freq\<close> have closed forms
  (\<open>sweep_freq_eq\<close>): the first 100 are below \<open>BAND_END\<close>, the 101st is above it.
\<close>


lemma ilog2_bounds:
  assumes "x \<noteq> 0"
  shows "2 powi (ilog2 x) \<le> \<bar>x\<bar>" and "\<bar>x\<bar> < 2 powi (ilog2 x + 1)"
proof -
  have "2 powi (ilog2 x) \<le> \<bar>x\<bar> \<and> \<bar>x\<bar> < 2 powi (ilog2 x + 1)"
  proof (cases "1 \<le> \<bar>x\<bar>")
    case True
    define n where "n = \<lfloor>\<bar>x\<bar>\<rfloor>"
    have n1: "1 \<le> n" using True by (simp add: n_def le_floor_iff)
    then have b1: "1 \<le> bitlen n" by (simp add: bitlen_alt_def)
    have e: "ilog2 x = bitlen n - 1" using True by (simp add: ilog2_def n_def)
    from bitlen_bounds [of n] n1
    have lo: "2 ^ nat (bitlen n - 1) \<le> n" and hi: "n < 2 ^ nat (bitlen n)" by auto
    have "(2::rat) powi (bitlen n - 1) = 2 ^ nat (bitlen n - 1)"
      using b1 by (simp add: power_int_nonneg_exp)
    also have "\<dots> = of_int (2 ^ nat (bitlen n - 1))" by simp
    also have "\<dots> \<le> of_int n" using lo by (simp only: of_int_le_iff)
    also have "\<dots> \<le> \<bar>x\<bar>" by (simp add: n_def)
    finally have A: "2 powi (ilog2 x) \<le> \<bar>x\<bar>" by (simp add: e)
    have "n + 1 \<le> 2 ^ nat (bitlen n)" using hi by simp
    then have "(of_int (n + 1) :: rat) \<le> of_int (2 ^ nat (bitlen n))"
      by (simp only: of_int_le_iff)
    moreover have "\<bar>x\<bar> < of_int (n + 1)" unfolding n_def by linarith
    ultimately have "\<bar>x\<bar> < 2 ^ nat (bitlen n)" by simp
    also have "\<dots> = (2::rat) powi (bitlen n)"
      using b1 by (simp add: power_int_nonneg_exp)
    finally have B: "\<bar>x\<bar> < 2 powi (ilog2 x + 1)" by (simp add: e)
    from A B show ?thesis by simp
  next
    case False
    define y where "y = 1 / \<bar>x\<bar>"
    define m where "m = \<lceil>y\<rceil> - 1"
    have xpos: "0 < \<bar>x\<bar>" using assms by simp
    have y1: "1 < y" using False xpos by (simp add: y_def)
    have ypos: "0 < y" using y1 by simp
    have xy: "\<bar>x\<bar> = 1 / y" by (simp add: y_def)
    have "2 \<le> \<lceil>y\<rceil>" using y1 by (simp add: le_ceiling_iff)
    then have m1: "1 \<le> m" by (simp add: m_def)
    then have b1: "1 \<le> bitlen m" by (simp add: bitlen_alt_def)
    have e: "ilog2 x = - bitlen m" using False by (simp add: ilog2_def m_def y_def)
    from bitlen_bounds [of m] m1
    have lo: "2 ^ nat (bitlen m - 1) \<le> m" and hi: "m < 2 ^ nat (bitlen m)" by auto
    have "\<lceil>y\<rceil> \<le> 2 ^ nat (bitlen m)" using hi by (simp add: m_def)
    then have "(of_int \<lceil>y\<rceil> :: rat) \<le> of_int (2 ^ nat (bitlen m))"
      by (simp only: of_int_le_iff)
    moreover have "y \<le> of_int \<lceil>y\<rceil>" by linarith
    ultimately have "y \<le> of_int (2 ^ nat (bitlen m))" by (rule order_trans [rotated])
    then have "y \<le> 2 ^ nat (bitlen m)" by simp
    then have yle: "y \<le> 2 powi (bitlen m)"
      using b1 by (simp add: power_int_nonneg_exp)
    have "(2::rat) powi (- bitlen m) = 1 / 2 powi (bitlen m)"
      by (simp add: power_int_minus_divide)
    also have "\<dots> \<le> 1 / y"
      using yle ypos by (simp add: frac_le)
    finally have A: "2 powi (ilog2 x) \<le> \<bar>x\<bar>" by (simp add: e xy)
    have "(of_int (2 ^ nat (bitlen m - 1)) :: rat) \<le> of_int m"
      using lo by (simp only: of_int_le_iff)
    moreover have "of_int m < y" by (simp add: m_def) linarith
    ultimately have "of_int (2 ^ nat (bitlen m - 1)) < y" by (rule le_less_trans)
    then have "2 ^ nat (bitlen m - 1) < y" by simp
    then have ylt: "2 powi (bitlen m - 1) < y"
      using b1 by (simp add: power_int_nonneg_exp)
    have p: "(0::rat) < 2 powi (bitlen m - 1)" by simp
    have "1 / y < 1 / 2 powi (bitlen m - 1)"
      using ylt p by (simp add: frac_less2)
    also have "\<dots> = 2 powi (- (bitlen m - 1))"
      by (simp only: power_int_minus_divide)
    finally have B: "\<bar>x\<bar> < 2 powi (ilog2 x + 1)" by (simp add: e xy)
    from A B show ?thesis by simp
  qed
  then show "2 powi (ilog2 x) \<le> \<bar>x\<bar>" and "\<bar>x\<bar> < 2 powi (ilog2 x + 1)" by simp_all
qed

lemma ilog2_unique:
  assumes "2 powi e \<le> \<bar>x\<bar>" and "\<bar>x\<bar> < 2 powi (e + 1)"
  shows "ilog2 x = e"
proof -
  have x0: "x \<noteq> 0"
  proof
    assume "x = 0"
    with assms(1) have "(2::rat) powi e \<le> 0" by simp
    moreover have "(0::rat) < 2 powi e" by (rule zero_less_power_int) simp
    ultimately show False by linarith
  qed
  note b = ilog2_bounds [OF x0]
  have lt: "i < j" if "(2::rat) powi i < 2 powi j" for i j :: int
  proof (rule ccontr)
    assume "\<not> i < j"
    then have "(2::rat) powi j \<le> 2 powi i" by (intro power_int_increasing) simp_all
    with that show False by linarith
  qed
  have "2 powi e < (2::rat) powi (ilog2 x + 1)" using assms(1) b(2) by linarith
  then have "e < ilog2 x + 1" by (rule lt)
  moreover have "2 powi (ilog2 x) < (2::rat) powi (e + 1)" using assms(2) b(1) by linarith
  then have "ilog2 x < e + 1" by (rule lt)
  ultimately show ?thesis by simp
qed

lemma round_ne_error: "\<bar>of_int (round_ne y) - y\<bar> \<le> 1 / 2"
proof -
  have "of_int \<lfloor>y\<rfloor> \<le> y" "y < of_int \<lfloor>y\<rfloor> + 1" by linarith+
  then show ?thesis
    by (auto simp: round_ne_def Let_def abs_le_iff)
qed

lemma powi_less_imp_less:
  fixes i j :: int
  assumes "(2::rat) powi i < 2 powi j"
  shows "i < j"
proof (rule ccontr)
  assume "\<not> i < j"
  then have "(2::rat) powi j \<le> 2 powi i" by (intro power_int_increasing) simp_all
  with assms show False by linarith
qed

lemma ilog2_ge:
  assumes "2 powi e \<le> \<bar>x\<bar>"
  shows "e \<le> ilog2 x"
proof -
  have x0: "x \<noteq> 0"
  proof
    assume "x = 0"
    with assms have "(2::rat) powi e \<le> 0" by simp
    moreover have "(0::rat) < 2 powi e" by (rule zero_less_power_int) simp
    ultimately show False by linarith
  qed
  from ilog2_bounds(2) [OF x0] assms have "(2::rat) powi e < 2 powi (ilog2 x + 1)" by linarith
  then have "e < ilog2 x + 1" by (rule powi_less_imp_less)
  then show ?thesis by simp
qed

lemma ulp_exponent_normal:
  assumes "2 powi (- 1022) \<le> \<bar>x\<bar>"
  shows "ulp_exponent x = ilog2 x - 52"
  using ilog2_ge [OF assms] by (simp add: ulp_exponent_def)

lemma round_ne_nonneg: "0 \<le> y \<Longrightarrow> 0 \<le> round_ne y"
proof -
  assume "0 \<le> y"
  then have "0 \<le> \<lfloor>y\<rfloor>" by simp
  then show ?thesis by (simp add: round_ne_def Let_def)
qed

lemma round_ne_nonpos: "y \<le> 0 \<Longrightarrow> round_ne y \<le> 0"
proof -
  assume y: "y \<le> 0"
  show ?thesis
  proof (cases "\<lfloor>y\<rfloor> = 0")
    case True
    then have "0 \<le> y" by (metis of_int_0 of_int_floor_le)
    with y have "y = 0" by simp
    then show ?thesis by (simp add: round_ne_def)
  next
    case False
    moreover have "\<lfloor>y\<rfloor> \<le> 0" using y by (simp add: floor_le_iff)
    ultimately have "\<lfloor>y\<rfloor> + 1 \<le> 0" by linarith
    then show ?thesis by (simp add: round_ne_def Let_def)
  qed
qed

lemma fl_0 [simp]: "fl 0 = 0"
  by (simp add: fl_def)

lemma fl_nonneg: "0 \<le> x \<Longrightarrow> 0 \<le> fl x"
  by (simp add: fl_def Let_def round_ne_nonneg)

lemma fl_nonpos: "x \<le> 0 \<Longrightarrow> fl x \<le> 0"
  by (simp add: fl_def Let_def round_ne_nonpos divide_nonpos_pos mult_nonpos_nonneg)

lemma fl_error_ulp:
  assumes "x \<noteq> 0"
  shows "\<bar>fl x - x\<bar> \<le> 2 powi (ulp_exponent x) / 2"
proof -
  define q :: rat where "q = 2 powi (ulp_exponent x)"
  have qpos: "0 < q" by (simp add: q_def)
  have flx: "fl x = of_int (round_ne (x / q)) * q"
    using assms by (simp add: fl_def Let_def q_def)
  have "fl x - x = (of_int (round_ne (x / q)) - x / q) * q"
    using qpos by (simp add: flx algebra_simps)
  then have "\<bar>fl x - x\<bar> = \<bar>of_int (round_ne (x / q)) - x / q\<bar> * q"
    using qpos by (simp add: abs_mult)
  also have "\<dots> \<le> (1 / 2) * q"
    using round_ne_error [of "x / q"] qpos by (intro mult_right_mono) simp_all
  finally show ?thesis by (simp add: q_def)
qed

lemma fl_error_normal:
  assumes "2 powi (- 1022) \<le> \<bar>x\<bar>"
  shows "\<bar>fl x - x\<bar> \<le> \<bar>x\<bar> / 2 ^ 53"
proof -
  have x0: "x \<noteq> 0"
  proof
    assume "x = 0"
    with assms have "(2::rat) powi (- 1022) \<le> 0" by simp
    moreover have "(0::rat) < 2 powi (- 1022)" by (rule zero_less_power_int) simp
    ultimately show False by linarith
  qed
  have "\<bar>fl x - x\<bar> \<le> 2 powi (ilog2 x - 52) / 2"
    using fl_error_ulp [OF x0] by (simp only: ulp_exponent_normal [OF assms])
  also have "\<dots> = 2 powi (ilog2 x) / 2 ^ 53"
    by (simp add: power_int_diff)
  also have "\<dots> \<le> \<bar>x\<bar> / 2 ^ 53"
    using ilog2_bounds(1) [OF x0] by (simp add: divide_right_mono)
  finally show ?thesis .
qed

lemma fl_error: "\<bar>fl x - x\<bar> \<le> \<bar>x\<bar> / 2 ^ 53 + 2 powi (- 1075)"
proof (cases "2 powi (- 1022) \<le> \<bar>x\<bar>")
  case True
  have "(0::rat) \<le> 2 powi (- 1075)" by simp
  with fl_error_normal [OF True] show ?thesis by linarith
next
  case False
  show ?thesis
  proof (cases "x = 0")
    case True
    then show ?thesis by simp
  next
    case x0: False
    have "ilog2 x < - 1022"
    proof (rule powi_less_imp_less)
      from ilog2_bounds(1) [OF x0] False show "(2::rat) powi (ilog2 x) < 2 powi (- 1022)"
        by linarith
    qed
    then have "ulp_exponent x = - 1074" by (simp add: ulp_exponent_def)
    with fl_error_ulp [OF x0] have "\<bar>fl x - x\<bar> \<le> 2 powi (- 1074) / 2" by simp
    also have "\<dots> = 2 powi (- 1075)" by (simp add: power_int_minus field_simps)
    finally show ?thesis by (simp add: add_increasing)
  qed
qed

lemma round_ne_nearest:
  assumes "\<bar>x - of_int k\<bar> < 1 / 2"
  shows "round_ne x = k"
proof (cases "of_int k \<le> x")
  case True
  with assms have "x < of_int k + 1" by linarith
  with True have f: "\<lfloor>x\<rfloor> = k" by linarith
  from assms True show ?thesis by (simp add: round_ne_def Let_def f)
next
  case False
  with assms have "of_int (k - 1) \<le> x" "x < of_int (k - 1) + 1"
    by (auto simp: abs_less_iff)
  then have f: "\<lfloor>x\<rfloor> = k - 1" by linarith
  from assms False show ?thesis by (simp add: round_ne_def Let_def f)
qed

lemma fl_eval:
  assumes "- 1022 \<le> e" and "2 powi e \<le> \<bar>x\<bar>" and "\<bar>x\<bar> < 2 powi (e + 1)"
    and "\<bar>x / 2 powi (e - 52) - of_int k\<bar> < 1 / 2"
  shows "fl x = of_int k * 2 powi (e - 52)"
proof -
  have e: "ilog2 x = e" using assms(2,3) by (rule ilog2_unique)
  have "x \<noteq> 0"
  proof
    assume "x = 0"
    with assms(2) have "(2::rat) powi e \<le> 0" by simp
    moreover have "(0::rat) < 2 powi e" by (rule zero_less_power_int) simp
    ultimately show False by linarith
  qed
  moreover have "ulp_exponent x = e - 52" using assms(1) by (simp add: ulp_exponent_def e)
  ultimately show ?thesis
    by (simp add: fl_def Let_def round_ne_nearest [OF assms(4)])
qed

lemma DBL_MAX_ge: "2 ^ 1023 \<le> DBL_MAX"
  by (simp add: DBL_MAX_def)

lemma to_double_finite:
  assumes "\<bar>fl x\<bar> \<le> DBL_MAX"
  shows "to_double x = Finite (fl x)"
  using assms by (simp add: to_double_def Let_def abs_le_iff not_less)

lemma to_double_nonneg:
  assumes "0 \<le> x"
  shows "to_double x = (if DBL_MAX < fl x then Pos_inf else Finite (fl x))"
proof -
  have "0 \<le> fl x" using assms by (rule fl_nonneg)
  moreover have "0 \<le> DBL_MAX" by (simp add: DBL_MAX_def)
  ultimately have "\<not> fl x < - DBL_MAX" by linarith
  then show ?thesis by (simp add: to_double_def Let_def)
qed

lemma to_double_nonpos:
  assumes "x \<le> 0"
  shows "to_double x = (if fl x < - DBL_MAX then Neg_inf else Finite (fl x))"
proof -
  have "fl x \<le> 0" using assms by (rule fl_nonpos)
  moreover have "0 \<le> DBL_MAX" by (simp add: DBL_MAX_def)
  ultimately have "\<not> DBL_MAX < fl x" by linarith
  then show ?thesis by (simp add: to_double_def Let_def)
qed

lemma to_double_0 [simp]: "to_double 0 = Finite 0"
  by (simp add: to_double_def DBL_MAX_def)

lemma to_double_eval:
  assumes "- 1022 \<le> e" and "e \<le> 1022" and "2 powi e \<le> \<bar>x\<bar>" and "\<bar>x\<bar> < 2 powi (e + 1)"
    and "\<bar>x / 2 powi (e - 52) - of_int k\<bar> < 1 / 2"
  shows "to_double x = Finite (of_int k * 2 powi (e - 52))"
proof -
  have f: "fl x = of_int k * 2 powi (e - 52)"
    using assms(1,3,4,5) by (rule fl_eval)
  define q :: rat where "q = 2 powi (e - 52)"
  have qpos: "0 < q" by (simp add: q_def)
  have q53: "q * 2 ^ 53 = 2 powi (e + 1)" by (simp add: q_def power_int_diff power_int_add)
  have "\<bar>x / q\<bar> < 2 ^ 53"
    using assms(4) qpos q53 by (simp add: field_simps)
  with assms(5) have "\<bar>(of_int k :: rat)\<bar> < 2 ^ 53 + 1 / 2" unfolding q_def by linarith
  then have "(of_int \<bar>k\<bar> :: rat) < of_int (2 ^ 53 + 1)" by simp
  then have "\<bar>k\<bar> \<le> 2 ^ 53" by (simp only: of_int_less_iff)
  then have "(of_int \<bar>k\<bar> :: rat) \<le> of_int (2 ^ 53)" by (simp only: of_int_le_iff)
  then have "\<bar>(of_int k :: rat)\<bar> \<le> 2 ^ 53" by simp
  then have "\<bar>of_int k * q\<bar> \<le> 2 ^ 53 * q"
    using qpos by (simp add: abs_mult)
  also have "\<dots> = 2 powi (e + 1)" using q53 by (simp add: mult.commute)
  also have "\<dots> \<le> 2 powi 1023" using assms(2) by (intro power_int_increasing) simp_all
  also have "\<dots> = 2 ^ 1023" by simp
  also note DBL_MAX_ge
  finally have "\<bar>fl x\<bar> \<le> DBL_MAX" by (simp add: f q_def)
  from to_double_finite [OF this] show ?thesis by (simp only: f)
qed

lemma Finite_le [simp]: "(Finite a \<le> Finite b) = (a \<le> b)"
  by (auto simp: less_eq_double_def)

lemma mega: "to_double 1000000 = Finite 1000000"
proof -
  have "to_double 1000000 = Finite (of_int 8589934592000000 * 2 powi (19 - 52))"
    by (rule to_double_eval) simp_all
  then show ?thesis by simp
qed

lemma BAND_START_eq: "BAND_START = Finite (6185412613216666 / 2 ^ 46)"
proof -
  have "to_double (879 / 10) = Finite (of_int 6185412613216666 * 2 powi (6 - 52))"
    by (rule to_double_eval) simp_all
  then show ?thesis by (simp add: BAND_START_def)
qed

lemma BAND_END_eq: "BAND_END = Finite (7592787496769946 / 2 ^ 46)"
proof -
  have "to_double (1079 / 10) = Finite (of_int 7592787496769946 * 2 powi (6 - 52))"
    by (rule to_double_eval) simp_all
  then show ?thesis by (simp add: BAND_END_def)
qed

lemma BAND_STEP_eq: "BAND_STEP = Finite (7205759403792794 / 2 ^ 55)"
proof -
  have "to_double (2 / 10) = Finite (of_int 7205759403792794 * 2 powi (- 3 - 52))"
    by (rule to_double_eval) simp_all
  then show ?thesis by (simp add: BAND_STEP_def)
qed

lemma fadd_BAND_STEP:
  assumes "4503599627370496 \<le> F" and "F \<le> 7592787496769966"
  shows "fadd (Finite (of_int F / 2 ^ 46)) BAND_STEP
     = Finite (of_int (F + 14073748835533) / 2 ^ 46)"
proof -
  define x :: rat where "x = of_int F / 2 ^ 46 + 7205759403792794 / 2 ^ 55"
  have lo: "(4503599627370496::rat) \<le> of_int F" using assms(1) by simp
  have hi: "of_int F \<le> (7592787496769966::rat)" using assms(2) by simp
  have x0: "0 \<le> x" using lo by (simp add: x_def)
  have "to_double x = Finite (of_int (F + 14073748835533) * 2 powi (6 - 52))"
  proof (rule to_double_eval)
    show "2 powi 6 \<le> \<bar>x\<bar>" using lo by (simp add: x_def)
    show "\<bar>x\<bar> < 2 powi (6 + 1)" using hi lo by (simp add: x_def)
    have "x / 2 powi (6 - 52) - of_int (F + 14073748835533) = - 51 / 256"
      by (simp add: x_def field_simps)
    then show "\<bar>x / 2 powi (6 - 52) - of_int (F + 14073748835533)\<bar> < 1 / 2"
      by simp
  qed simp_all
  then show ?thesis by (simp add: BAND_STEP_eq x_def)
qed

lemma sweep_freq_eq:
  "k \<le> 100 \<Longrightarrow>
   sweep_freq k = Finite (of_int (6185412613216666 + int k * 14073748835533) / 2 ^ 46)"
proof (induction k)
  case 0
  show ?case by (simp add: BAND_START_eq)
next
  case (Suc k)
  then have IH: "sweep_freq k = Finite (of_int (6185412613216666 + int k * 14073748835533) / 2 ^ 46)"
    and k: "k < 100" by simp_all
  have "fadd (Finite (of_int (6185412613216666 + int k * 14073748835533) / 2 ^ 46)) BAND_STEP
      = Finite (of_int ((6185412613216666 + int k * 14073748835533) + 14073748835533) / 2 ^ 46)"
    using k by (intro fadd_BAND_STEP) simp_all
  then show ?case by (simp add: IH algebra_simps)
qed

lemma sweep_freq_in_band: "k < 100 \<Longrightarrow> sweep_freq k \<le> BAND_END"
  by (simp add: sweep_freq_eq BAND_END_eq divide_le_cancel)

lemma sweep_freq_100: "\<not> sweep_freq 100 \<le> BAND_END"
  using sweep_freq_eq [of 100] by (simp add: BAND_END_eq)

lemma sweep_freq_mono: "i < j \<Longrightarrow> j \<le> 100 \<Longrightarrow> sweep_freq i < sweep_freq j"
  by (simp add: sweep_freq_eq divide_strict_right_mono)

lemma sweep_freq_below_end: "k < 100 \<Longrightarrow> sweep_freq k < BAND_END"
  by (simp add: sweep_freq_eq BAND_END_eq divide_less_cancel)

lemma sweep_freq_ge: "k \<le> 100 \<Longrightarrow> BAND_START \<le> sweep_freq k"
  by (simp add: sweep_freq_eq BAND_START_eq divide_right_mono)

lemma round_ne_bounded:
  assumes "\<bar>y\<bar> \<le> of_int n"
  shows "\<bar>round_ne y\<bar> \<le> n"
proof -
  have "\<bar>(of_int (round_ne y) :: rat)\<bar> \<le> \<bar>of_int (round_ne y) - y\<bar> + \<bar>y\<bar>" by linarith
  also have "\<dots> \<le> 1 / 2 + of_int n" using round_ne_error [of y] assms by linarith
  finally have "(of_int \<bar>round_ne y\<bar> :: rat) < of_int (n + 1)" by simp
  then show ?thesis by (simp only: of_int_less_iff)
qed

lemma fl_le_DBL_MAX:
  assumes "\<bar>x\<bar> \<le> DBL_MAX"
  shows "\<bar>fl x\<bar> \<le> DBL_MAX"
proof (cases "\<bar>x\<bar> < 2 ^ 1023")
  case True
  have "\<bar>fl x\<bar> \<le> \<bar>fl x - x\<bar> + \<bar>x\<bar>" by linarith
  also have "\<dots> \<le> \<bar>x\<bar> / 2 ^ 53 + 2 powi (- 1075) + \<bar>x\<bar>"
    using fl_error [of x] by linarith
  also have "\<dots> \<le> 2 ^ 1023 / 2 ^ 53 + 2 powi (- 1075) + 2 ^ 1023"
    using True by (intro add_mono divide_right_mono) simp_all
  also have "\<dots> \<le> DBL_MAX" by (simp add: DBL_MAX_def power_int_minus)
  finally show ?thesis .
next
  case False
  then have lo: "2 powi 1023 \<le> \<bar>x\<bar>" by simp
  have "DBL_MAX < 2 ^ 1024" by (simp add: DBL_MAX_def)
  with assms have hi: "\<bar>x\<bar> < 2 powi (1023 + 1)" by simp
  have e: "ilog2 x = 1023" using lo hi by (rule ilog2_unique)
  have x0: "x \<noteq> 0" using lo by auto
  have f: "fl x = of_int (round_ne (x / 2 ^ 971)) * 2 ^ 971"
    using x0 by (simp add: fl_def Let_def ulp_exponent_def e)
  have "\<bar>x / 2 ^ 971\<bar> \<le> DBL_MAX / 2 ^ 971"
    using assms by (simp add: divide_right_mono)
  also have "\<dots> = of_int (2 ^ 53 - 1)" by (simp add: DBL_MAX_def)
  finally have "\<bar>round_ne (x / 2 ^ 971)\<bar> \<le> 2 ^ 53 - 1" by (rule round_ne_bounded)
  then have "(of_int \<bar>round_ne (x / 2 ^ 971)\<bar> :: rat) \<le> of_int (2 ^ 53 - 1)"
    by (simp only: of_int_le_iff)
  then have "\<bar>(of_int (round_ne (x / 2 ^ 971)) :: rat)\<bar> \<le> 2 ^ 53 - 1" by simp
  then have "\<bar>(of_int (round_ne (x / 2 ^ 971)) :: rat)\<bar> * 2 ^ 971 \<le> (2 ^ 53 - 1) * 2 ^ 971"
    by (rule mult_right_mono) simp
  moreover have "\<bar>of_int (round_ne (x / 2 ^ 971)) * (2::rat) ^ 971\<bar>
      = \<bar>(of_int (round_ne (x / 2 ^ 971)) :: rat)\<bar> * 2 ^ 971"
    by (simp only: abs_mult) simp
  ultimately show ?thesis by (simp only: f DBL_MAX_def)
qed

lemma to_double_in_range:
  assumes "\<bar>x\<bar> \<le> DBL_MAX"
  shows "to_double x = Finite (fl x)"
  using fl_le_DBL_MAX [OF assms] by (rule to_double_finite)

lemma to_double_overflow:
  assumes "2 ^ 1025 \<le> x"
  shows "to_double x = Pos_inf"
proof -
  have n: "2 powi (- 1022) \<le> \<bar>x\<bar>"
  proof -
    have "(2::rat) powi (- 1022) \<le> 2 powi 1025" by (intro power_int_increasing) simp_all
    with assms show ?thesis by simp
  qed
  have x0: "0 \<le> x"
  proof -
    have "(0::rat) \<le> 2 ^ 1025" by simp
    with assms show ?thesis by linarith
  qed
  have "\<bar>fl x - x\<bar> \<le> \<bar>x\<bar> / 2 ^ 53" using n by (rule fl_error_normal)
  then have "\<bar>fl x - x\<bar> \<le> x / 2 ^ 53" using x0 by (simp only: abs_of_nonneg)
  then have "x - x / 2 ^ 53 \<le> fl x" by linarith
  moreover have "x - x / 2 ^ 53 = x * (1 - 1 / 2 ^ 53)"
    by (simp only: right_diff_distrib mult_1_right times_divide_eq_right)
  moreover have "2 ^ 1025 * (1 - 1 / 2 ^ 53) \<le> x * (1 - 1 / 2 ^ 53 :: rat)"
    using assms by (intro mult_right_mono) simp_all
  moreover have "DBL_MAX < 2 ^ 1025 * (1 - 1 / 2 ^ 53)" by (simp add: DBL_MAX_def)
  ultimately have "DBL_MAX < fl x" by linarith
  then show ?thesis by (simp add: to_double_def Let_def)
qed


section \<open>The sweep over measurement windows\<close>

text \<open>
  When the clock begins with a measurement window, one step of the sweep consumes exactly
  that window and records the frequency if \<open>step_records\<close> holds of its readings
  (\<open>scan_step_window\<close>). A sweep over a clock of 100 windows returns, with the stations
  that \<open>step_records\<close> chooses (\<open>sweep_windows\<close>); and a sweep that returns has
  consumed 100 windows (\<open>sweep_split\<close>).
\<close>


lemma measure_loop_window:
  assumes "clock w = ts @ e # rest"
    and "list_all (\<lambda>t. elapsed_ms s t < MEASURE_MS) ts"
    and "\<not> elapsed_ms s e < MEASURE_MS"
  shows "measure_loop s (sm, n) w =
     Some ((foldl fadd sm (map (level w) [level_calls w..<level_calls w + length ts]),
            n + of_nat (length ts)),
           w\<lparr>clock := rest, level_calls := level_calls w + length ts\<rparr>)"
  using assms
proof (induction ts arbitrary: sm n w)
  case Nil
  then show ?case by (simp add: measure_loop_Cons [where t = e and ts = rest])
next
  case (Cons t ts)
  let ?w2 = "w\<lparr>clock := ts @ e # rest, level_calls := Suc (level_calls w)\<rparr>"
  have c: "clock w = t # (ts @ e # rest)" using Cons.prems(1) by simp
  have t: "elapsed_ms s t < MEASURE_MS" and ts: "list_all (\<lambda>t. elapsed_ms s t < MEASURE_MS) ts"
    using Cons.prems(2) by simp_all
  have IH: "measure_loop s (fadd sm (level w (level_calls w)), n + 1) ?w2 =
     Some ((foldl fadd (fadd sm (level w (level_calls w)))
              (map (level ?w2) [level_calls ?w2..<level_calls ?w2 + length ts]),
            n + 1 + of_nat (length ts)),
           ?w2\<lparr>clock := rest, level_calls := level_calls ?w2 + length ts\<rparr>)"
    by (rule Cons.IH) (simp_all add: ts Cons.prems(3))
  have u: "[level_calls w..<level_calls w + length (t # ts)]
      = level_calls w # [Suc (level_calls w)..<Suc (level_calls w) + length ts]"
    using upt_conv_Cons [of "level_calls w" "level_calls w + Suc (length ts)"] by simp
  show ?case
    by (simp only: measure_loop_Cons [OF c] t if_True IH u)
      (simp add: add.assoc)
qed

lemma measure_window_window:
  assumes "clock w = window_clock win @ rest" and "window_ok win"
  shows "measure_window w =
     Some ((foldl fadd (Finite 0) (window_samples (level w) (level_calls w) win),
            of_nat (window_size win)),
           w\<lparr>clock := rest, level_calls := level_calls w + window_size win\<rparr>)"
proof -
  obtain s ts e where win: "win = (s, ts, e)" by (cases win)
  let ?w1 = "w\<lparr>clock := ts @ e # rest\<rparr>"
  have n: "now w = Some (s, ?w1)"
    using assms(1) by (simp add: now_def win window_clock_def)
  have "measure_loop s (Finite 0, 0) ?w1 =
     Some ((foldl fadd (Finite 0) (map (level ?w1) [level_calls ?w1..<level_calls ?w1 + length ts]),
            0 + of_nat (length ts)),
           ?w1\<lparr>clock := rest, level_calls := level_calls ?w1 + length ts\<rparr>)"
    using assms(2) by (intro measure_loop_window) (auto simp: win window_ok_def)
  then show ?thesis
    by (simp add: measure_window_def n window_samples_def window_size_def win)
qed

lemma fdiv_by_count:
  fixes n :: "32 word"
  assumes "0 < n"
  shows "\<exists>avg. fdiv sm (double_of_uint n) = Some avg"
proof -
  from assms have "n \<noteq> 0" by (simp add: word_neq_0_conv)
  then have "(of_nat (unat n) :: rat) \<noteq> 0"
    by (simp add: unsigned_eq_0_iff)
  then show ?thesis by (simp add: double_of_uint_def)
qed

lemma scan_step_window:
  assumes "clock w = window_clock win @ rest" and "window_ok win"
    and "unat found < MAX_FM_STATIONS"
  shows "\<exists>w'. scan_step (Some ctx) freq (found, out) w =
       Some (Inr (ctx\<lparr>center_freq := fmul freq (to_double 1000000)\<rparr>,
         (if step_records (window_samples (level w) (level_calls w) win)
          then (found + 1, out[unat found := freq]) else (found, out)), w'))
     \<and> clock w' = rest \<and> level w' = level w
     \<and> level_calls w' = level_calls w + window_size win"
proof -
  let ?w0 = "sleep_for SWITCH_DELAY_MS w"
  let ?xs = "window_samples (level w) (level_calls w) win"
  let ?n = "of_nat (window_size win) :: 32 word"
  let ?w2 = "?w0\<lparr>clock := rest, level_calls := level_calls ?w0 + window_size win\<rparr>"
  have c: "clock ?w0 = window_clock win @ rest" using assms(1) by (simp add: sleep_for_def)
  have m: "measure_window ?w0 = Some ((foldl fadd (Finite 0) ?xs, ?n), ?w2)"
    using measure_window_window [OF c assms(2)] by (simp add: sleep_for_def)
  have len: "length ?xs = window_size win" by (simp add: window_samples_def)
  have cm: "computed_mean ?xs = fdiv (foldl fadd (Finite 0) ?xs) (double_of_uint ?n)"
    by (simp add: computed_mean_def len)
  have w2: "clock ?w2 = rest" "level ?w2 = level w"
    "level_calls ?w2 = level_calls w + window_size win"
    by (simp_all add: sleep_for_def)
  show ?thesis
  proof (cases "0 < ?n")
    case pos: True
    from fdiv_by_count [OF pos] obtain avg where
      d: "fdiv (foldl fadd (Finite 0) ?xs) (double_of_uint ?n) = Some avg"
      by blast
    show ?thesis
    proof (cases "POWER_THRESHOLD < avg")
      case True
      then have rec: "step_records ?xs"
        using pos by (simp add: step_records_def cm d len)
      let ?w3 = "printf (Found_station freq avg) ?w2"
      have "scan_step (Some ctx) freq (found, out) w =
          Some (Inr (ctx\<lparr>center_freq := fmul freq (to_double 1000000)\<rparr>,
            (found + 1, out[unat found := freq]), ?w3))"
        by (simp add: scan_step_def rtl_set_fm_def m pos d True assms(3))
      moreover have "clock ?w3 = rest" "level ?w3 = level w"
        "level_calls ?w3 = level_calls w + window_size win"
        using w2 by (simp_all add: printf_def)
      ultimately show ?thesis using rec by auto
    next
      case False
      then have rec: "\<not> step_records ?xs"
        by (simp add: step_records_def cm d)
      have "scan_step (Some ctx) freq (found, out) w =
          Some (Inr (ctx\<lparr>center_freq := fmul freq (to_double 1000000)\<rparr>, (found, out), ?w2))"
        by (simp add: scan_step_def rtl_set_fm_def m pos d False)
      with w2 rec show ?thesis by auto
    qed
  next
    case False
    then have rec: "\<not> step_records ?xs"
      by (simp add: step_records_def len)
    have "scan_step (Some ctx) freq (found, out) w =
        Some (Inr (ctx\<lparr>center_freq := fmul freq (to_double 1000000)\<rparr>, (found, out), ?w2))"
      using False by (simp add: scan_step_def rtl_set_fm_def m)
    with w2 rec show ?thesis by auto
  qed
qed

lemma unat_Suc_found:
  fixes found :: "32 word"
  assumes "unat found < MAX_FM_STATIONS"
  shows "unat (found + 1) = Suc (unat found)"
proof -
  have "unat found + unat (1 :: 32 word) < 2 ^ LENGTH(32)"
    using assms by (simp add: MAX_FM_STATIONS_def)
  then have "unat (found + 1) = unat found + unat (1 :: 32 word)"
    by (simp only: unat_add_lem)
  then show ?thesis by simp
qed

lemma length_stations_by: "length (stations_by P lev k i wins) \<le> length wins"
  by (induction wins arbitrary: k i) (simp_all add: le_SucI)

lemma sweep_done:
  "sweep (sweep_freq 100) tuner st w = Some (Inr (tuner, st, w))"
  by (subst sweep.simps) (simp add: sweep_freq_100)

lemma sweep_step:
  assumes "k < 100"
  shows "sweep (sweep_freq k) tuner st w =
     (case scan_step tuner (sweep_freq k) st w of
        None \<Rightarrow> None
      | Some (Inl f) \<Rightarrow> Some (Inl f)
      | Some (Inr (ctx, st', w')) \<Rightarrow> sweep (sweep_freq (Suc k)) (Some ctx) st' w')"
  by (subst sweep.simps)
    (simp add: sweep_freq_in_band [OF assms] split: option.splits sum.splits prod.splits)

lemma sweep_windows:
  assumes "k + length wins = 100" and "list_all window_ok wins"
    and "clock w = concat (map window_clock wins) @ rest"
    and "unat found \<le> k" and "length out = MAX_FM_STATIONS"
  shows "\<exists>found' out' w'.
     sweep (sweep_freq k) (Some ctx) (found, out) w =
       Some (Inr (Some (if wins = [] then ctx
                        else ctx\<lparr>center_freq := fmul (sweep_freq 99) (to_double 1000000)\<rparr>),
                  (found', out'), w'))
     \<and> unat found' = unat found + length (stations_by step_records (level w) k (level_calls w) wins)
     \<and> length out' = MAX_FM_STATIONS
     \<and> take (unat found') out' =
         take (unat found) out @ stations_by step_records (level w) k (level_calls w) wins
     \<and> clock w' = rest \<and> level w' = level w
     \<and> level_calls w' = level_calls w + sum_list (map window_size wins)"
  using assms
proof (induction wins arbitrary: k found out w ctx)
  case Nil
  then have "k = 100" by simp
  then show ?case using Nil.prems(3,5) by (simp add: sweep_done)
next
  case (Cons win wins)
  let ?f = "sweep_freq k"
  let ?ctx1 = "ctx\<lparr>center_freq := fmul ?f (to_double 1000000)\<rparr>"
  let ?rec = "step_records (window_samples (level w) (level_calls w) win)"
  let ?st1 = "if ?rec then (found + 1, out[unat found := ?f]) else (found, out)"
  have k: "k < 100" and k1: "Suc k + length wins = 100" using Cons.prems(1) by simp_all
  have fnd: "unat found < MAX_FM_STATIONS"
    using Cons.prems(4) k by (simp add: MAX_FM_STATIONS_def)
  have c: "clock w = window_clock win @ (concat (map window_clock wins) @ rest)"
    using Cons.prems(3) by simp
  have ok: "window_ok win" and oks: "list_all window_ok wins"
    using Cons.prems(2) by simp_all
  from scan_step_window [OF c ok fnd, of ctx ?f out]
  obtain w1 where
    step: "scan_step (Some ctx) ?f (found, out) w = Some (Inr (?ctx1, ?st1, w1))"
    and c1: "clock w1 = concat (map window_clock wins) @ rest"
    and l1: "level w1 = level w"
    and n1: "level_calls w1 = level_calls w + window_size win"
    by blast
  obtain found1 out1 where st1: "?st1 = (found1, out1)" by (cases ?st1)
  have f1: "unat found1 = (if ?rec then Suc (unat found) else unat found)"
    using st1 unat_Suc_found [OF fnd] by (auto split: if_splits)
  have o1: "length out1 = MAX_FM_STATIONS"
    using st1 Cons.prems(5) by (auto split: if_splits)
  have t1: "take (unat found1) out1 = take (unat found) out @ (if ?rec then [?f] else [])"
  proof (cases ?rec)
    case True
    have "unat found < length out" using fnd Cons.prems(5) by simp
    then have "take (Suc (unat found)) (out[unat found := ?f]) = take (unat found) out @ [?f]"
      by (simp add: take_Suc_conv_app_nth)
    with True st1 f1 show ?thesis by auto
  next
    case False
    with st1 show ?thesis by auto
  qed
  have le1: "unat found1 \<le> Suc k" using f1 Cons.prems(4) by (simp split: if_splits)
  from Cons.IH [OF k1 oks c1 le1 o1, of ?ctx1]
  obtain found' out' w' where
    sw: "sweep (sweep_freq (Suc k)) (Some ?ctx1) (found1, out1) w1 =
       Some (Inr (Some (if wins = [] then ?ctx1
                        else ?ctx1\<lparr>center_freq := fmul (sweep_freq 99) (to_double 1000000)\<rparr>),
                  (found', out'), w'))"
    and r1: "unat found' = unat found1
        + length (stations_by step_records (level w1) (Suc k) (level_calls w1) wins)"
    and r2: "length out' = MAX_FM_STATIONS"
    and r3: "take (unat found') out' = take (unat found1) out1
        @ stations_by step_records (level w1) (Suc k) (level_calls w1) wins"
    and r4: "clock w' = rest" "level w' = level w1"
    and r5: "level_calls w' = level_calls w1 + sum_list (map window_size wins)"
    by blast
  have ctx': "(if wins = [] then ?ctx1
               else ?ctx1\<lparr>center_freq := fmul (sweep_freq 99) (to_double 1000000)\<rparr>)
      = ctx\<lparr>center_freq := fmul (sweep_freq 99) (to_double 1000000)\<rparr>"
    using k1 by (cases wins) simp_all
  have "sweep ?f (Some ctx) (found, out) w =
      Some (Inr (Some (ctx\<lparr>center_freq := fmul (sweep_freq 99) (to_double 1000000)\<rparr>),
        (found', out'), w'))"
    by (simp add: sweep_step [OF k] step st1 sw ctx' del: sweep_freq.simps)
  moreover have "unat found' = unat found
      + length (stations_by step_records (level w) k (level_calls w) (win # wins))"
    using r1 f1 by (simp add: l1 n1)
  moreover have "take (unat found') out' = take (unat found) out
      @ stations_by step_records (level w) k (level_calls w) (win # wins)"
    using r3 t1 by (simp add: l1 n1)
  moreover have "level_calls w' = level_calls w + sum_list (map window_size (win # wins))"
    using r5 n1 by simp
  ultimately show ?case using r2 r4 l1 by simp
qed

lemma measure_loop_split:
  "measure_loop s acc w = Some (r, w') \<Longrightarrow>
   \<exists>ts e. clock w = ts @ e # clock w' \<and> list_all (\<lambda>t. elapsed_ms s t < MEASURE_MS) ts
     \<and> \<not> elapsed_ms s e < MEASURE_MS"
proof (induction "clock w" arbitrary: w acc)
  case Nil
  then show ?case by (simp add: measure_loop_Nil)
next
  case (Cons t ts)
  obtain sm n where acc: "acc = (sm, n)" by (cases acc)
  have c: "clock w = t # ts" using Cons.hyps(2) by simp
  show ?case
  proof (cases "elapsed_ms s t < MEASURE_MS")
    case True
    let ?w2 = "w\<lparr>clock := ts, level_calls := Suc (level_calls w)\<rparr>"
    from Cons.prems True
    have "measure_loop s (fadd sm (level w (level_calls w)), n + 1) ?w2 = Some (r, w')"
      by (simp add: acc measure_loop_Cons [OF c])
    from Cons.hyps(1) [OF _ this]
    obtain ts' e where "ts = ts' @ e # clock w'"
      "list_all (\<lambda>t. elapsed_ms s t < MEASURE_MS) ts'" "\<not> elapsed_ms s e < MEASURE_MS"
      by auto
    with True c have "clock w = (t # ts') @ e # clock w'
        \<and> list_all (\<lambda>t. elapsed_ms s t < MEASURE_MS) (t # ts')
        \<and> \<not> elapsed_ms s e < MEASURE_MS"
      by simp
    then show ?thesis by blast
  next
    case False
    with Cons.prems have "clock w' = ts"
      by (auto simp: acc measure_loop_Cons [OF c])
    with False c have "clock w = [] @ t # clock w'
        \<and> list_all (\<lambda>t. elapsed_ms s t < MEASURE_MS) []
        \<and> \<not> elapsed_ms s t < MEASURE_MS"
      by simp
    then show ?thesis by blast
  qed
qed

lemma measure_window_split:
  assumes "measure_window w = Some (r, w')"
  shows "\<exists>win. clock w = window_clock win @ clock w' \<and> window_ok win"
proof (cases "clock w")
  case Nil
  with assms show ?thesis by (simp add: measure_window_def now_def)
next
  case (Cons s cs)
  with assms have "measure_loop s (Finite 0, 0) (w\<lparr>clock := cs\<rparr>) = Some (r, w')"
    by (simp add: measure_window_def now_def)
  from measure_loop_split [OF this]
  obtain ts e where "cs = ts @ e # clock w'"
    "list_all (\<lambda>t. elapsed_ms s t < MEASURE_MS) ts" "\<not> elapsed_ms s e < MEASURE_MS"
    by auto
  with Cons have "clock w = window_clock (s, ts, e) @ clock w' \<and> window_ok (s, ts, e)"
    by (simp add: window_clock_def window_ok_def)
  then show ?thesis by blast
qed

lemma scan_step_split:
  assumes "scan_step (Some ctx) freq st w = Some r"
  shows "\<exists>win rest. clock w = window_clock win @ rest \<and> window_ok win"
proof -
  from assms obtain a w2 where
    "measure_window (sleep_for SWITCH_DELAY_MS w) = Some (a, w2)"
    by (auto simp: scan_step_def rtl_set_fm_def split: option.splits)
  from measure_window_split [OF this] show ?thesis
    by (auto simp: sleep_for_def)
qed

lemma sweep_split:
  assumes "sweep (sweep_freq k) (Some ctx) (found, out) w = Some r"
    and "k \<le> 100" and "unat found \<le> k" and "length out = MAX_FM_STATIONS"
  shows "\<exists>wins rest. clock w = concat (map window_clock wins) @ rest
     \<and> list_all window_ok wins \<and> k + length wins = 100"
  using assms
proof (induction "100 - k" arbitrary: k ctx found out w)
  case 0
  then have "clock w = concat (map window_clock []) @ clock w
      \<and> list_all window_ok [] \<and> k + length ([] :: window list) = 100"
    by simp
  then show ?case by blast
next
  case (Suc d)
  let ?f = "sweep_freq k"
  have k: "k < 100" using Suc.hyps(2) by simp
  have fnd: "unat found < MAX_FM_STATIONS"
    using Suc.prems(3) k by (simp add: MAX_FM_STATIONS_def)
  from Suc.prems(1) obtain r1 where r1: "scan_step (Some ctx) ?f (found, out) w = Some r1"
    by (auto simp: sweep_step [OF k] split: option.splits)
  from scan_step_split [OF r1]
  obtain win rest1 where c: "clock w = window_clock win @ rest1" and ok: "window_ok win"
    by blast
  let ?ctx1 = "ctx\<lparr>center_freq := fmul ?f (to_double 1000000)\<rparr>"
  let ?rec = "step_records (window_samples (level w) (level_calls w) win)"
  let ?st1 = "if ?rec then (found + 1, out[unat found := ?f]) else (found, out)"
  from scan_step_window [OF c ok fnd, of ctx ?f out]
  obtain w1 where
    step: "scan_step (Some ctx) ?f (found, out) w = Some (Inr (?ctx1, ?st1, w1))"
    and c1: "clock w1 = rest1"
    by blast
  obtain found1 out1 where st1: "?st1 = (found1, out1)" by (cases ?st1)
  have f1: "unat found1 \<le> Suc k"
    using st1 unat_Suc_found [OF fnd] Suc.prems(3) by (auto split: if_splits)
  have o1: "length out1 = MAX_FM_STATIONS"
    using st1 Suc.prems(4) by (auto split: if_splits)
  have sw: "sweep (sweep_freq (Suc k)) (Some ?ctx1) (found1, out1) w1 = Some r"
    using Suc.prems(1) by (simp add: sweep_step [OF k] step st1 del: sweep_freq.simps)
  have d: "d = 100 - Suc k" using Suc.hyps(2) by simp
  from Suc.hyps(1) [OF d sw _ f1 o1] k
  obtain wins rest where "clock w1 = concat (map window_clock wins) @ rest"
    "list_all window_ok wins" "Suc k + length wins = 100"
    by auto
  with c c1 ok have "clock w = concat (map window_clock (win # wins)) @ rest
      \<and> list_all window_ok (win # wins) \<and> k + length (win # wins) = 100"
    by simp
  then show ?case by blast
qed

lemma sweep_complete:
  assumes "sweep (sweep_freq 0) (Some ctx) (0, out) w = Some r"
    and "length out = MAX_FM_STATIONS"
  shows "\<exists>wins rest. clock w = concat (map window_clock wins) @ rest
     \<and> list_all window_ok wins \<and> length wins = 100"
  using sweep_split [OF assms(1) _ _ assms(2)] by simp

lemma scan_windows:
  assumes "length wins = 100" and "list_all window_ok wins"
    and "clock w = concat (map window_clock wins) @ rest"
    and "length (station_list ctx) = MAX_FM_STATIONS"
  shows "\<exists>found out w'.
     scan_fm_stations (Some ctx) w =
       Some (Inr (ctx\<lparr>center_freq := fmul (sweep_freq 99) (to_double 1000000),
                      station_list := take (unat found) out @ drop (unat found) (station_list ctx),
                      station_list_len := found\<rparr>, w'))
     \<and> unat found \<le> MAX_FM_STATIONS \<and> length out = MAX_FM_STATIONS
     \<and> take (unat found) out = stations_by step_records (level w) 0 (level_calls w) wins
     \<and> clock w' = rest \<and> level w' = level w"
proof -
  let ?w0 = "printf Starting_scan w"
  let ?ds = "stations_by step_records (level w) 0 (level_calls w) wins"
  have k: "0 + length wins = 100" using assms(1) by simp
  have c: "clock ?w0 = concat (map window_clock wins) @ rest"
    using assms(3) by (simp add: printf_def)
  have u: "length (uninitialised_array w) = MAX_FM_STATIONS"
    by (simp add: uninitialised_array_def)
  have ne: "wins \<noteq> []" using assms(1) by auto
  from sweep_windows [OF k assms(2) c _ u, of 0 ctx] ne
  obtain found out w1 where
    sw: "sweep (sweep_freq 0) (Some ctx) (0, uninitialised_array w) ?w0 =
       Some (Inr (Some (ctx\<lparr>center_freq := fmul (sweep_freq 99) (to_double 1000000)\<rparr>),
         (found, out), w1))"
    and f: "unat found = length (stations_by step_records (level ?w0) 0 (level_calls ?w0) wins)"
    and o: "length out = MAX_FM_STATIONS"
    and t: "take (unat found) out = stations_by step_records (level ?w0) 0 (level_calls ?w0) wins"
    and w1: "clock w1 = rest" "level w1 = level ?w0"
    by auto
  have "length (stations_by step_records (level ?w0) 0 (level_calls ?w0) wins) \<le> length wins"
    by (rule length_stations_by)
  with f assms(1) have fl: "unat found \<le> MAX_FM_STATIONS"
    by (simp add: MAX_FM_STATIONS_def)
  have m: "memcpy (station_list ctx) out (unat found) =
      Inr (take (unat found) out @ drop (unat found) (station_list ctx))"
    using fl o assms(4) by (simp add: memcpy_def)
  have "scan_fm_stations (Some ctx) w =
       Some (Inr (ctx\<lparr>center_freq := fmul (sweep_freq 99) (to_double 1000000),
                      station_list := take (unat found) out @ drop (unat found) (station_list ctx),
                      station_list_len := found\<rparr>, printf Finished_scan w1))"
    using sw by (simp add: scan_fm_stations_def m)
  moreover have "take (unat found) out = ?ds" using t by (simp add: printf_def)
  moreover have "clock (printf Finished_scan w1) = rest"
    "level (printf Finished_scan w1) = level w"
    using w1 by (simp_all add: printf_def)
  ultimately show ?thesis using fl o by blast
qed

lemma scan_complete:
  assumes "scan_fm_stations (Some ctx) w = Some r"
  shows "\<exists>wins rest. clock w = concat (map window_clock wins) @ rest
     \<and> list_all window_ok wins \<and> length wins = 100"
proof -
  from assms obtain r' where
    "sweep (sweep_freq 0) (Some ctx) (0, uninitialised_array w) (printf Starting_scan w) = Some r'"
    by (auto simp: scan_fm_stations_def split: option.splits)
  from sweep_complete [OF this] show ?thesis
    by (simp add: uninitialised_array_def printf_def)
qed

lemma get_stations_windows:
  assumes "length wins = 100" and "list_all window_ok wins"
    and "clock w = concat (map window_clock wins) @ rest"
    and "length (station_list ctx) = MAX_FM_STATIONS"
    and "MAX_FM_STATIONS \<le> length stations_out"
  shows "\<exists>found out w'.
     rtl_get_fm_stations (Some ctx) stations_out w =
       Some (Inr (found, take (unat found) out @ drop (unat found) stations_out,
         ctx\<lparr>center_freq := fmul (sweep_freq 99) (to_double 1000000),
              station_list := take (unat found) out @ drop (unat found) (station_list ctx),
              station_list_len := found\<rparr>, w'))
     \<and> unat found \<le> MAX_FM_STATIONS \<and> length out = MAX_FM_STATIONS
     \<and> take (unat found) out = stations_by step_records (level w) 0 (level_calls w) wins"
proof -
  from scan_windows [OF assms(1-4)]
  obtain found out w' where
    sc: "scan_fm_stations (Some ctx) w =
       Some (Inr (ctx\<lparr>center_freq := fmul (sweep_freq 99) (to_double 1000000),
                      station_list := take (unat found) out @ drop (unat found) (station_list ctx),
                      station_list_len := found\<rparr>, w'))"
    and f: "unat found \<le> MAX_FM_STATIONS" and o: "length out = MAX_FM_STATIONS"
    and t: "take (unat found) out = stations_by step_records (level w) 0 (level_calls w) wins"
    by blast
  have "memcpy stations_out
      (take (unat found) out @ drop (unat found) (station_list ctx)) (unat found)
      = Inr (take (unat found) out @ drop (unat found) stations_out)"
    using f o assms(4,5) by (simp add: memcpy_def)
  then have "rtl_get_fm_stations (Some ctx) stations_out w =
       Some (Inr (found, take (unat found) out @ drop (unat found) stations_out,
         ctx\<lparr>center_freq := fmul (sweep_freq 99) (to_double 1000000),
              station_list := take (unat found) out @ drop (unat found) (station_list ctx),
              station_list_len := found\<rparr>, w'))"
    by (simp add: rtl_get_fm_stations_def sc)
  with f o t show ?thesis by blast
qed

lemma get_stations_complete:
  assumes "rtl_get_fm_stations (Some ctx) stations_out w = Some r"
  shows "\<exists>wins rest. clock w = concat (map window_clock wins) @ rest
     \<and> list_all window_ok wins \<and> length wins = 100"
proof -
  from assms obtain r' where "scan_fm_stations (Some ctx) w = Some r'"
    by (auto simp: rtl_get_fm_stations_def split: option.splits)
  then show ?thesis by (rule scan_complete)
qed


section \<open>Rounding error of the computed mean\<close>

text \<open>
  After \<open>j\<close> additions of non-negative terms the running sum is within the factors
  \<open>1 \<plusminus> j * REL_SLACK\<close>, and \<open>j * ABS_SLACK\<close>, of the exact sum, unless it has
  overflowed to infinity. Hence the computed mean of fewer than \<open>2^32\<close> non-negative
  samples is above the threshold when their arithmetic mean is at least \<open>0.0002000001\<close>
  and is not when it is at most \<open>0.0001999999\<close>.
\<close>

lemma fl_upper:
  assumes "0 \<le> x"
  shows "fl x \<le> x * (1 + 1 / 2 ^ 53) + ABS_SLACK / 2"
proof -
  have e: "(2::rat) powi (- 1075) = ABS_SLACK / 2"
    by (simp add: ABS_SLACK_def power_int_minus field_simps)
  from fl_error [of x] have "\<bar>fl x - x\<bar> \<le> \<bar>x\<bar> / 2 ^ 53 + ABS_SLACK / 2"
    unfolding e .
  with assms have "\<bar>fl x - x\<bar> \<le> x / 2 ^ 53 + ABS_SLACK / 2"
    by (simp only: abs_of_nonneg)
  then have "fl x \<le> x + x / 2 ^ 53 + ABS_SLACK / 2" by linarith
  also have "x + x / 2 ^ 53 = x * (1 + 1 / 2 ^ 53)"
    by (simp only: distrib_left mult_1_right times_divide_eq_right)
  finally show ?thesis .
qed

lemma fl_lower:
  assumes "0 \<le> x"
  shows "x * (1 - 1 / 2 ^ 53) - ABS_SLACK / 2 \<le> fl x"
proof -
  have e: "(2::rat) powi (- 1075) = ABS_SLACK / 2"
    by (simp add: ABS_SLACK_def power_int_minus field_simps)
  from fl_error [of x] have "\<bar>fl x - x\<bar> \<le> \<bar>x\<bar> / 2 ^ 53 + ABS_SLACK / 2"
    unfolding e .
  with assms have "\<bar>fl x - x\<bar> \<le> x / 2 ^ 53 + ABS_SLACK / 2"
    by (simp only: abs_of_nonneg)
  then have "x - x / 2 ^ 53 - ABS_SLACK / 2 \<le> fl x" by linarith
  moreover have "x - x / 2 ^ 53 = x * (1 - 1 / 2 ^ 53)"
    by (simp only: right_diff_distrib mult_1_right times_divide_eq_right)
  ultimately show ?thesis by simp
qed

lemma slack_nonneg: "0 \<le> REL_SLACK" "0 \<le> ABS_SLACK"
  by (simp_all add: REL_SLACK_def ABS_SLACK_def)

lemma slack_step_upper:
  assumes "0 \<le> T" and "0 \<le> J" and "J \<le> 2 ^ 32"
  shows "(T * (1 + J * REL_SLACK) + J * ABS_SLACK) * (1 + 1 / 2 ^ 53) + ABS_SLACK / 2
     \<le> T * (1 + (J + 1) * REL_SLACK) + (J + 1) * ABS_SLACK"
proof -
  have "J * REL_SLACK \<le> 2 ^ 32 * REL_SLACK"
    using assms(3) slack_nonneg(1) by (rule mult_right_mono)
  also have "\<dots> \<le> 1 / 2 ^ 20" by (simp add: REL_SLACK_def)
  finally have ja: "J * REL_SLACK \<le> 1 / 2 ^ 20" .
  have "1 / 2 ^ 53 * (1 + J * REL_SLACK) \<le> 1 / 2 ^ 53 * (1 + 1 / 2 ^ 20)"
    using ja by (intro mult_left_mono) simp_all
  also have "\<dots> = REL_SLACK" by (simp add: REL_SLACK_def)
  finally have h: "1 / 2 ^ 53 * (1 + J * REL_SLACK) \<le> REL_SLACK" .
  have "(1 + J * REL_SLACK) * (1 + 1 / 2 ^ 53)
      = 1 + J * REL_SLACK + 1 / 2 ^ 53 * (1 + J * REL_SLACK)"
    by (simp add: algebra_simps)
  also have "\<dots> \<le> 1 + (J + 1) * REL_SLACK" using h by (simp add: algebra_simps)
  finally have "T * ((1 + J * REL_SLACK) * (1 + 1 / 2 ^ 53)) \<le> T * (1 + (J + 1) * REL_SLACK)"
    using assms(1) by (rule mult_left_mono)
  then have 1: "T * (1 + J * REL_SLACK) * (1 + 1 / 2 ^ 53) \<le> T * (1 + (J + 1) * REL_SLACK)"
    by (simp only: mult.assoc)
  have "J * (1 / 2 ^ 53) \<le> 2 ^ 32 * (1 / 2 ^ 53)"
    using assms(3) by (intro mult_right_mono) simp_all
  also have "\<dots> \<le> (1 / 2 :: rat)" by simp
  finally have "J * (1 / 2 ^ 53) * ABS_SLACK \<le> 1 / 2 * ABS_SLACK"
    using slack_nonneg(2) by (rule mult_right_mono)
  then have 2: "J * ABS_SLACK * (1 + 1 / 2 ^ 53) + ABS_SLACK / 2 \<le> (J + 1) * ABS_SLACK"
    by (simp add: algebra_simps)
  have "(T * (1 + J * REL_SLACK) + J * ABS_SLACK) * (1 + 1 / 2 ^ 53) + ABS_SLACK / 2
      = T * (1 + J * REL_SLACK) * (1 + 1 / 2 ^ 53)
        + (J * ABS_SLACK * (1 + 1 / 2 ^ 53) + ABS_SLACK / 2)"
    by (simp only: distrib_right add.assoc)
  also have "\<dots> \<le> T * (1 + (J + 1) * REL_SLACK) + (J + 1) * ABS_SLACK"
    using 1 2 by (rule add_mono)
  finally show ?thesis .
qed

lemma slack_step_lower:
  assumes "0 \<le> T" and "0 \<le> J"
  shows "T * (1 - (J + 1) * REL_SLACK) - (J + 1) * ABS_SLACK
     \<le> (T * (1 - J * REL_SLACK) - J * ABS_SLACK) * (1 - 1 / 2 ^ 53) - ABS_SLACK / 2"
proof -
  have u: "1 / 2 ^ 53 \<le> REL_SLACK" by (simp add: REL_SLACK_def)
  have jr: "0 \<le> J * REL_SLACK" using assms(2) slack_nonneg(1) by simp
  have "1 - (J + 1) * REL_SLACK \<le> 1 - J * REL_SLACK - 1 / 2 ^ 53"
    using u by (simp add: algebra_simps)
  also have "\<dots> \<le> 1 - J * REL_SLACK - 1 / 2 ^ 53 + J * REL_SLACK * (1 / 2 ^ 53)"
    using jr by simp
  also have "\<dots> = (1 - J * REL_SLACK) * (1 - 1 / 2 ^ 53)" by (simp add: algebra_simps)
  finally have "T * (1 - (J + 1) * REL_SLACK) \<le> T * ((1 - J * REL_SLACK) * (1 - 1 / 2 ^ 53))"
    using assms(1) by (rule mult_left_mono)
  then have 1: "T * (1 - (J + 1) * REL_SLACK) \<le> T * (1 - J * REL_SLACK) * (1 - 1 / 2 ^ 53)"
    by (simp only: mult.assoc)
  have "0 \<le> J * ABS_SLACK * (1 / 2 ^ 53)" using assms(2) slack_nonneg(2) by simp
  then have 2: "J * ABS_SLACK * (1 - 1 / 2 ^ 53) + ABS_SLACK / 2 \<le> (J + 1) * ABS_SLACK"
    using slack_nonneg(2) by (simp add: algebra_simps)
  have "(T * (1 - J * REL_SLACK) - J * ABS_SLACK) * (1 - 1 / 2 ^ 53) - ABS_SLACK / 2
      = T * (1 - J * REL_SLACK) * (1 - 1 / 2 ^ 53)
        - (J * ABS_SLACK * (1 - 1 / 2 ^ 53) + ABS_SLACK / 2)"
    by (simp only: left_diff_distrib diff_diff_eq)
  with 1 2 show ?thesis by linarith
qed


lemma DBL_MAX_large: "2 ^ 1002 \<le> DBL_MAX"
proof -
  have "(2::rat) ^ 1002 \<le> 2 ^ 1023" by (rule power_increasing) simp_all
  with DBL_MAX_ge show ?thesis by linarith
qed

lemma of_nat_le_2_32:
  assumes "j \<le> 2 ^ 32"
  shows "(of_nat j :: rat) \<le> 2 ^ 32"
proof -
  from assms have "(of_nat j :: rat) \<le> of_nat (2 ^ 32)" by (simp only: of_nat_le_iff)
  then show ?thesis by simp
qed

lemma foldl_fadd_upper:
  assumes "\<forall>r\<in>set rs. 0 \<le> r" and "0 \<le> s" and "0 \<le> S"
    and "s \<le> S * (1 + of_nat j * REL_SLACK) + of_nat j * ABS_SLACK"
    and "j + length rs \<le> 2 ^ 32" and "S + sum_list rs \<le> 2 ^ 1000"
  shows "\<exists>s'. foldl fadd (Finite s) (map Finite rs) = Finite s' \<and> 0 \<le> s' \<and>
     s' \<le> (S + sum_list rs) * (1 + of_nat (j + length rs) * REL_SLACK)
            + of_nat (j + length rs) * ABS_SLACK"
  using assms
proof (induction rs arbitrary: s S j)
  case Nil
  then show ?case by simp
next
  case (Cons r rs)
  define J :: rat where "J = of_nat j"
  define T where "T = S + r"
  have r0: "0 \<le> r" and rs0: "\<forall>r\<in>set rs. 0 \<le> r" using Cons.prems(1) by simp_all
  have J0: "0 \<le> J" by (simp add: J_def)
  have J1: "J + 1 \<le> 2 ^ 32"
  proof -
    have "Suc j \<le> 2 ^ 32" using Cons.prems(5) by simp
    from of_nat_le_2_32 [OF this] show ?thesis by (simp add: J_def)
  qed
  then have J32: "J \<le> 2 ^ 32" by simp
  have T0: "0 \<le> T" using Cons.prems(3) r0 by (simp add: T_def)
  have sl: "0 \<le> sum_list rs" using rs0 by (simp add: sum_list_nonneg)
  have T1: "T \<le> 2 ^ 1000" using Cons.prems(6) sl by (simp add: T_def)
  have x0: "0 \<le> s + r" using Cons.prems(2) r0 by simp
  have "0 \<le> r * (J * REL_SLACK)" using r0 J0 slack_nonneg(1) by simp
  then have "S * (1 + J * REL_SLACK) + r \<le> T * (1 + J * REL_SLACK)"
    by (simp add: T_def algebra_simps)
  with Cons.prems(4) have xb: "s + r \<le> T * (1 + J * REL_SLACK) + J * ABS_SLACK"
    by (simp add: J_def)
  have "fl (s + r) \<le> (s + r) * (1 + 1 / 2 ^ 53) + ABS_SLACK / 2"
    using x0 by (rule fl_upper)
  also have "\<dots> \<le> (T * (1 + J * REL_SLACK) + J * ABS_SLACK) * (1 + 1 / 2 ^ 53) + ABS_SLACK / 2"
    using xb by (simp add: mult_right_mono)
  also have "\<dots> \<le> T * (1 + (J + 1) * REL_SLACK) + (J + 1) * ABS_SLACK"
    using T0 J0 J32 by (rule slack_step_upper)
  finally have fb: "fl (s + r) \<le> T * (1 + (J + 1) * REL_SLACK) + (J + 1) * ABS_SLACK" .
  have f0: "0 \<le> fl (s + r)" using x0 by (rule fl_nonneg)
  have "(J + 1) * REL_SLACK \<le> 2 ^ 32 * REL_SLACK"
    using J1 slack_nonneg(1) by (rule mult_right_mono)
  also have "\<dots> \<le> 1" by (simp add: REL_SLACK_def)
  finally have "1 + (J + 1) * REL_SLACK \<le> 2" by simp
  then have "T * (1 + (J + 1) * REL_SLACK) \<le> T * 2"
    using T0 by (rule mult_left_mono)
  also have "\<dots> \<le> 2 ^ 1000 * 2" using T1 by simp
  finally have a: "T * (1 + (J + 1) * REL_SLACK) \<le> 2 ^ 1001" by simp
  have "(J + 1) * ABS_SLACK \<le> 2 ^ 32 * ABS_SLACK"
    using J1 slack_nonneg(2) by (rule mult_right_mono)
  also have "\<dots> \<le> 1" by (simp add: ABS_SLACK_def)
  also have "\<dots> \<le> (2::rat) ^ 1001" by simp
  finally have b: "(J + 1) * ABS_SLACK \<le> 2 ^ 1001" .
  have "fl (s + r) \<le> 2 ^ 1001 + 2 ^ 1001" using fb a b by linarith
  also have "\<dots> = (2::rat) ^ 1002" by simp
  also note DBL_MAX_large
  finally have "\<bar>fl (s + r)\<bar> \<le> DBL_MAX" using f0 by simp
  then have step: "to_double (s + r) = Finite (fl (s + r))"
    by (rule to_double_finite)
  have fb': "fl (s + r) \<le> T * (1 + of_nat (Suc j) * REL_SLACK) + of_nat (Suc j) * ABS_SLACK"
    using fb by (simp add: J_def add.commute)
  have len: "Suc j + length rs \<le> 2 ^ 32" using Cons.prems(5) by simp
  have tot: "T + sum_list rs \<le> 2 ^ 1000" using Cons.prems(6) by (simp add: T_def add.assoc)
  from Cons.IH [OF rs0 f0 T0 fb' len tot]
  show ?case by (simp add: step T_def add.assoc)
qed

lemma foldl_fadd_lower:
  assumes "\<forall>r\<in>set rs. 0 \<le> r" and "0 \<le> S"
    and "d = Pos_inf \<or>
       (\<exists>s. d = Finite s \<and> 0 \<le> s \<and> S * (1 - of_nat j * REL_SLACK) - of_nat j * ABS_SLACK \<le> s)"
  shows "foldl fadd d (map Finite rs) = Pos_inf \<or>
     (\<exists>s'. foldl fadd d (map Finite rs) = Finite s' \<and> 0 \<le> s' \<and>
        (S + sum_list rs) * (1 - of_nat (j + length rs) * REL_SLACK)
          - of_nat (j + length rs) * ABS_SLACK \<le> s')"
  using assms
proof (induction rs arbitrary: d S j)
  case Nil
  then show ?case by simp
next
  case (Cons r rs)
  define J :: rat where "J = of_nat j"
  define T where "T = S + r"
  have r0: "0 \<le> r" and rs0: "\<forall>r\<in>set rs. 0 \<le> r" using Cons.prems(1) by simp_all
  have J0: "0 \<le> J" by (simp add: J_def)
  have T0: "0 \<le> T" using Cons.prems(2) r0 by (simp add: T_def)
  have next_d: "fadd d (Finite r) = Pos_inf \<or>
       (\<exists>s. fadd d (Finite r) = Finite s \<and> 0 \<le> s
          \<and> T * (1 - of_nat (Suc j) * REL_SLACK) - of_nat (Suc j) * ABS_SLACK \<le> s)"
  proof (cases "d = Pos_inf")
    case True
    then show ?thesis by simp
  next
    case False
    with Cons.prems(3) obtain s where d: "d = Finite s" and s0: "0 \<le> s"
      and sb: "S * (1 - J * REL_SLACK) - J * ABS_SLACK \<le> s"
      unfolding J_def by blast
    have x0: "0 \<le> s + r" using s0 r0 by simp
    have "0 \<le> r * (J * REL_SLACK)" using r0 J0 slack_nonneg(1) by simp
    then have "T * (1 - J * REL_SLACK) \<le> S * (1 - J * REL_SLACK) + r"
      by (simp add: T_def algebra_simps)
    with sb have xb: "T * (1 - J * REL_SLACK) - J * ABS_SLACK \<le> s + r" by linarith
    have "T * (1 - (J + 1) * REL_SLACK) - (J + 1) * ABS_SLACK
        \<le> (T * (1 - J * REL_SLACK) - J * ABS_SLACK) * (1 - 1 / 2 ^ 53) - ABS_SLACK / 2"
      using T0 J0 by (rule slack_step_lower)
    also have "\<dots> \<le> (s + r) * (1 - 1 / 2 ^ 53) - ABS_SLACK / 2"
      using xb by (simp add: mult_right_mono)
    also have "\<dots> \<le> fl (s + r)" using x0 by (rule fl_lower)
    finally have fb: "T * (1 - of_nat (Suc j) * REL_SLACK) - of_nat (Suc j) * ABS_SLACK
        \<le> fl (s + r)"
      by (simp add: J_def add.commute)
    have f0: "0 \<le> fl (s + r)" using x0 by (rule fl_nonneg)
    show ?thesis
      using fb f0 by (simp add: d to_double_nonneg [OF x0])
  qed
  from Cons.IH [OF rs0 T0 next_d]
  show ?case by (simp add: T_def add.assoc)
qed


lemma POWER_THRESHOLD_eq: "POWER_THRESHOLD = Finite (7378697629483821 / 2 ^ 65)"
proof -
  have "to_double (2 / 10000) = Finite (of_int 7378697629483821 * 2 powi (- 13 - 52))"
    by (rule to_double_eval) simp_all
  then show ?thesis by (simp add: POWER_THRESHOLD_def)
qed

lemma count_of_length:
  assumes "n < 2 ^ 32"
  shows "double_of_uint (of_nat n) = Finite (of_nat n)" and "((0 :: 32 word) < of_nat n) = (0 < n)"
proof -
  have u: "unat (of_nat n :: 32 word) = n" using assms by (simp add: unat_of_nat)
  show "double_of_uint (of_nat n) = Finite (of_nat n)"
    unfolding double_of_uint_def u ..
  show "((0 :: 32 word) < of_nat n) = (0 < n)"
    using u by (metis unat_gt_0 word_neq_0_conv)
qed

lemma computed_mean_Finite:
  assumes "foldl fadd (Finite 0) xs = Finite s" and "xs \<noteq> []" and "length xs < 2 ^ 32"
  shows "computed_mean xs = Some (to_double (s / of_nat (length xs)))"
  using assms by (simp add: computed_mean_def count_of_length(1))

lemma computed_mean_Pos_inf:
  assumes "foldl fadd (Finite 0) xs = Pos_inf" and "xs \<noteq> []" and "length xs < 2 ^ 32"
  shows "computed_mean xs = Some Pos_inf"
  using assms by (simp add: computed_mean_def count_of_length(1) inf_of_sign_def)

lemma mean_below_not_recorded:
  assumes "\<forall>r\<in>set rs. 0 \<le> r" and "length rs < 2 ^ 32"
    and "arithmetic_mean rs \<le> 1999999 / 10 ^ 10"
  shows "\<not> step_records (map Finite rs)"
proof (cases "rs = []")
  case True
  then show ?thesis by (simp add: step_records_def)
next
  case False
  define N :: rat where "N = of_nat (length rs)"
  define m where "m = arithmetic_mean rs"
  have N1: "1 \<le> N" using False by (cases rs) (simp_all add: N_def)
  have N32: "N \<le> 2 ^ 32"
    unfolding N_def using assms(2) by (intro of_nat_le_2_32) simp
  have sl: "0 \<le> sum_list rs" using assms(1) by (simp add: sum_list_nonneg)
  have sm: "sum_list rs = m * N" using N1 by (simp add: m_def arithmetic_mean_def N_def)
  have m0: "0 \<le> m" using sl N1 by (simp add: m_def arithmetic_mean_def N_def)
  have mc: "m \<le> 1999999 / 10 ^ 10" using assms(3) by (simp add: m_def)
  have "m * N \<le> 1999999 / 10 ^ 10 * 2 ^ 32"
    using mc N32 m0 N1 by (intro mult_mono) simp_all
  also have "\<dots> \<le> (2::rat) ^ 1000" by simp
  finally have tot: "0 + sum_list rs \<le> 2 ^ 1000" by (simp add: sm)
  from foldl_fadd_upper [OF assms(1) _ _ _ _ tot, of 0 0]
  obtain s where s: "foldl fadd (Finite 0) (map Finite rs) = Finite s" and s0: "0 \<le> s"
    and sb: "s \<le> sum_list rs * (1 + N * REL_SLACK) + N * ABS_SLACK"
    using assms(2) by (auto simp: N_def)
  define q where "q = s / N"
  have q0: "0 \<le> q" using s0 N1 by (simp add: q_def)
  have "q \<le> (sum_list rs * (1 + N * REL_SLACK) + N * ABS_SLACK) / N"
    unfolding q_def using sb N1 by (intro divide_right_mono) simp_all
  also have "\<dots> = m * (1 + N * REL_SLACK) + ABS_SLACK"
    using N1 by (simp add: sm field_simps)
  finally have qb: "q \<le> m * (1 + N * REL_SLACK) + ABS_SLACK" .
  have "N * REL_SLACK \<le> 2 ^ 32 * REL_SLACK"
    using N32 slack_nonneg(1) by (rule mult_right_mono)
  then have "m * (1 + N * REL_SLACK) \<le> 1999999 / 10 ^ 10 * (1 + 2 ^ 32 * REL_SLACK)"
    using mc m0 N1 slack_nonneg(1) by (intro mult_mono) simp_all
  with qb have qc: "q \<le> 1999999 / 10 ^ 10 * (1 + 2 ^ 32 * REL_SLACK) + ABS_SLACK" by linarith
  have "fl q \<le> q * (1 + 1 / 2 ^ 53) + ABS_SLACK / 2" using q0 by (rule fl_upper)
  also have "\<dots> \<le> (1999999 / 10 ^ 10 * (1 + 2 ^ 32 * REL_SLACK) + ABS_SLACK) * (1 + 1 / 2 ^ 53)
      + ABS_SLACK / 2"
    using qc by (intro add_right_mono mult_right_mono) simp_all
  also have "\<dots> \<le> 7378697629483821 / 2 ^ 65"
    by (simp add: REL_SLACK_def ABS_SLACK_def)
  finally have fb: "fl q \<le> 7378697629483821 / 2 ^ 65" .
  have f0: "0 \<le> fl q" using q0 by (rule fl_nonneg)
  have "fl q \<le> 2 ^ 1023" using fb by simp
  with DBL_MAX_ge f0 have "\<bar>fl q\<bar> \<le> DBL_MAX" by simp
  then have t: "to_double q = Finite (fl q)" by (rule to_double_finite)
  have ne: "map Finite rs \<noteq> []" and len: "length (map Finite rs) < 2 ^ 32"
    using False assms(2) by simp_all
  have "computed_mean (map Finite rs) = Some (to_double q)"
    using computed_mean_Finite [OF s ne len] by (simp add: q_def N_def)
  then have "computed_mean (map Finite rs) = Some (Finite (fl q))"
    by (simp only: t)
  then show ?thesis
    using fb by (simp add: step_records_def POWER_THRESHOLD_eq)
qed

lemma mean_above_recorded:
  assumes "\<forall>r\<in>set rs. 0 \<le> r" and "rs \<noteq> []" and "length rs < 2 ^ 32"
    and "2000001 / 10 ^ 10 \<le> arithmetic_mean rs"
  shows "step_records (map Finite rs)"
proof -
  define N :: rat where "N = of_nat (length rs)"
  define m where "m = arithmetic_mean rs"
  have N1: "1 \<le> N" using assms(2) by (cases rs) (simp_all add: N_def)
  have N32: "N \<le> 2 ^ 32"
    unfolding N_def using assms(3) by (intro of_nat_le_2_32) simp
  have sm: "sum_list rs = m * N" using N1 by (simp add: m_def arithmetic_mean_def N_def)
  have mc: "2000001 / 10 ^ 10 \<le> m" using assms(4) by (simp add: m_def)
  then have m0: "0 \<le> m" by simp
  have ne: "map Finite rs \<noteq> []" and len: "length (map Finite rs) < 2 ^ 32"
    using assms(2,3) by simp_all
  have pos: "(0 :: 32 word) < of_nat (length (map Finite rs))"
    using count_of_length(2) [OF len] ne by simp
  from foldl_fadd_lower [OF assms(1), of 0 "Finite 0" 0]
  consider "foldl fadd (Finite 0) (map Finite rs) = Pos_inf"
    | s where "foldl fadd (Finite 0) (map Finite rs) = Finite s" "0 \<le> s"
      "sum_list rs * (1 - N * REL_SLACK) - N * ABS_SLACK \<le> s"
    by (auto simp: N_def)
  then show ?thesis
  proof cases
    case 1
    from computed_mean_Pos_inf [OF 1 ne len] pos show ?thesis
      by (simp add: step_records_def POWER_THRESHOLD_eq)
  next
    case 2
    define q where "q = s / N"
    have q0: "0 \<le> q" using 2(2) N1 by (simp add: q_def)
    have "m * (1 - N * REL_SLACK) - ABS_SLACK
        = (sum_list rs * (1 - N * REL_SLACK) - N * ABS_SLACK) / N"
      using N1 by (simp add: sm field_simps)
    also have "\<dots> \<le> q"
      unfolding q_def using 2(3) N1 by (intro divide_right_mono) simp_all
    finally have qb: "m * (1 - N * REL_SLACK) - ABS_SLACK \<le> q" .
    have "N * REL_SLACK \<le> 2 ^ 32 * REL_SLACK"
      using N32 slack_nonneg(1) by (rule mult_right_mono)
    then have "1 - 2 ^ 32 * REL_SLACK \<le> 1 - N * REL_SLACK" by simp
    then have "m * (1 - 2 ^ 32 * REL_SLACK) \<le> m * (1 - N * REL_SLACK)"
      using m0 by (rule mult_left_mono)
    moreover have "2000001 / 10 ^ 10 * (1 - 2 ^ 32 * REL_SLACK) \<le> m * (1 - 2 ^ 32 * REL_SLACK)"
      using mc by (intro mult_right_mono) (simp_all add: REL_SLACK_def)
    ultimately have qc: "2000001 / 10 ^ 10 * (1 - 2 ^ 32 * REL_SLACK) - ABS_SLACK \<le> q"
      using qb by linarith
    have "7378697629483821 / 2 ^ 65
        < (2000001 / 10 ^ 10 * (1 - 2 ^ 32 * REL_SLACK) - ABS_SLACK) * (1 - 1 / 2 ^ 53)
          - ABS_SLACK / 2"
      by (simp add: REL_SLACK_def ABS_SLACK_def)
    also have "\<dots> \<le> q * (1 - 1 / 2 ^ 53) - ABS_SLACK / 2"
      using qc by (intro diff_right_mono mult_right_mono) simp_all
    also have "\<dots> \<le> fl q" using q0 by (rule fl_lower)
    finally have fb: "7378697629483821 / 2 ^ 65 < fl q" .
    have "computed_mean (map Finite rs) = Some (to_double q)"
      using computed_mean_Finite [OF 2(1) ne len] by (simp add: q_def N_def)
    then show ?thesis
      using fb pos by (simp add: step_records_def POWER_THRESHOLD_eq to_double_nonneg [OF q0])
  qed
qed

lemma le_Finite_cases:
  "(d \<le> Finite b) = (d = Neg_inf \<or> (\<exists>s. d = Finite s \<and> s \<le> b))"
  by (cases d) (auto simp: less_eq_double_def)

lemma Finite_le_cases:
  "(Finite b \<le> d) = (d = Pos_inf \<or> (\<exists>s. d = Finite s \<and> b \<le> s))"
  by (cases d) (auto simp: less_eq_double_def)

lemma le_Finite_simps [simp]:
  "Neg_inf \<le> Finite b" "\<not> Pos_inf \<le> Finite b" "\<not> NaN \<le> d" "\<not> d \<le> NaN"
  "Finite b \<le> Pos_inf" "\<not> Finite b \<le> Neg_inf"
  by (cases d, simp_all add: less_eq_double_def)+

lemma to_double_nonpos_le:
  assumes "x \<le> 0"
  shows "to_double x \<le> Finite 0"
  using assms by (simp add: to_double_nonpos fl_nonpos)

lemma fadd_nonpos:
  assumes "d \<le> Finite 0" and "x \<le> Finite 0"
  shows "fadd d x \<le> Finite 0"
  using assms by (cases d; cases x) (simp_all add: to_double_nonpos_le)

lemma foldl_fadd_nonpos:
  assumes "\<forall>x\<in>set xs. x \<le> Finite 0" and "d \<le> Finite 0"
  shows "foldl fadd d xs \<le> Finite 0"
  using assms by (induction xs arbitrary: d) (simp_all add: fadd_nonpos)

lemma count_positive:
  fixes n :: "32 word"
  assumes "0 < n"
  shows "\<exists>N. double_of_uint n = Finite N \<and> 0 < N"
proof -
  from assms have "n \<noteq> 0" by (simp add: word_neq_0_conv)
  then have "unat n \<noteq> 0" by (simp add: unsigned_eq_0_iff)
  then have "0 < unat n" by simp
  then have "(0::rat) < of_nat (unat n)" by (simp only: of_nat_0_less_iff)
  then show ?thesis unfolding double_of_uint_def by blast
qed

lemma nonpos_not_recorded:
  assumes "\<forall>x\<in>set xs. x \<le> Finite 0"
  shows "\<not> step_records xs"
proof
  assume rec: "step_records xs"
  define n :: "32 word" where "n = of_nat (length xs)"
  from rec have pos: "0 < n" by (simp add: step_records_def n_def)
  from count_positive [OF pos] obtain N where dn: "double_of_uint n = Finite N" and N0: "0 < N"
    by blast
  have cm: "computed_mean xs = fdiv (foldl fadd (Finite 0) xs) (Finite N)"
    unfolding computed_mean_def n_def [symmetric] dn ..
  have "foldl fadd (Finite 0) xs \<le> Finite 0"
    using assms by (rule foldl_fadd_nonpos) simp
  then consider "foldl fadd (Finite 0) xs = Neg_inf"
    | s where "foldl fadd (Finite 0) xs = Finite s" "s \<le> 0"
    by (auto simp: le_Finite_cases)
  then have "\<exists>avg. computed_mean xs = Some avg \<and> avg \<le> Finite 0"
  proof cases
    case 1
    then show ?thesis
      using N0 by (simp add: cm inf_of_sign_def)
  next
    case 2
    have "s / N \<le> 0" using 2(2) N0 by (simp add: divide_nonpos_pos)
    then have "to_double (s / N) \<le> Finite 0" by (rule to_double_nonpos_le)
    then show ?thesis
      using N0 2(1) by (simp add: cm)
  qed
  then obtain avg where "computed_mean xs = Some avg" and a: "avg \<le> Finite 0" by blast
  with rec have "POWER_THRESHOLD < avg" by (simp add: step_records_def)
  with a show False
    by (auto simp: le_Finite_cases POWER_THRESHOLD_eq)
qed

lemma foldl_fadd_Pos_inf: "foldl fadd Pos_inf (replicate n Pos_inf) = Pos_inf"
  by (induction n) simp_all

lemma Pos_inf_recorded:
  assumes "0 < n" and "n < 2 ^ 32"
  shows "step_records (replicate n Pos_inf)"
proof -
  obtain k where n: "n = Suc k" using assms(1) by (cases n) simp_all
  have s: "foldl fadd (Finite 0) (replicate n Pos_inf) = Pos_inf"
    by (simp add: n foldl_fadd_Pos_inf)
  have ne: "replicate n Pos_inf \<noteq> []" and len: "length (replicate n Pos_inf) < 2 ^ 32"
    using assms by simp_all
  from computed_mean_Pos_inf [OF s ne len] count_of_length(2) [OF len] assms(1)
  show ?thesis by (simp add: step_records_def POWER_THRESHOLD_eq)
qed

lemma arithmetic_mean_replicate: "0 < n \<Longrightarrow> arithmetic_mean (replicate n r) = r"
  by (simp add: arithmetic_mean_def sum_list_replicate)

lemma map_Finite_replicate: "map Finite (replicate n r) = replicate n (Finite r)"
  by simp

lemma weak_constant_not_recorded:
  assumes "c \<le> Finite (1999999 / 10 ^ 10)" and "n < 2 ^ 32"
  shows "\<not> step_records (replicate n c)"
proof (cases "c \<le> Finite 0")
  case True
  then show ?thesis by (intro nonpos_not_recorded) simp
next
  case False
  with assms(1) obtain r where c: "c = Finite r" and r0: "0 \<le> r" and rc: "r \<le> 1999999 / 10 ^ 10"
    by (auto simp: le_Finite_cases)
  show ?thesis
  proof (cases "n = 0")
    case True
    then show ?thesis by (simp add: step_records_def)
  next
    case n: False
    have "\<not> step_records (map Finite (replicate n r))"
    proof (rule mean_below_not_recorded)
      show "\<forall>x\<in>set (replicate n r). 0 \<le> x" using r0 by simp
      show "length (replicate n r) < 2 ^ 32" using assms(2) by simp
      show "arithmetic_mean (replicate n r) \<le> 1999999 / 10 ^ 10"
        using n rc by (simp add: arithmetic_mean_replicate)
    qed
    then show ?thesis by (simp add: c)
  qed
qed

lemma strong_constant_recorded:
  assumes "Finite (2000001 / 10 ^ 10) \<le> c" and "0 < n" and "n < 2 ^ 32"
  shows "step_records (replicate n c)"
proof (cases "c = Pos_inf")
  case True
  with assms(2,3) show ?thesis by (simp add: Pos_inf_recorded)
next
  case False
  with assms(1) obtain r where c: "c = Finite r" and rc: "2000001 / 10 ^ 10 \<le> r"
    by (auto simp: Finite_le_cases)
  have "step_records (map Finite (replicate n r))"
  proof (rule mean_above_recorded)
    show "\<forall>x\<in>set (replicate n r). 0 \<le> x" using rc by simp
    show "replicate n r \<noteq> []" using assms(2) by simp
    show "length (replicate n r) < 2 ^ 32" using assms(3) by simp
    show "2000001 / 10 ^ 10 \<le> arithmetic_mean (replicate n r)"
      using assms(2) rc by (simp add: arithmetic_mean_replicate)
  qed
  then show ?thesis by (simp add: c)
qed

lemma counter_wraps: "\<not> step_records (replicate (2 ^ 32) c)"
proof -
  have "(of_nat (2 ^ 32) :: 32 word) = 0" by simp
  then show ?thesis by (simp add: step_records_def)
qed


section \<open>Levels one unit from the threshold, cancellation and a wrapped counter\<close>

text \<open>
  Between these two bounds rounding decides. Seven readings of the largest double below
  the threshold have a computed mean above it, and three readings of the smallest double
  above the threshold have a computed mean equal to it. For samples of both signs the
  computed mean can be anywhere: the sum of \<open>2^54\<close>, \<open>1\<close> and \<open>-2^54\<close> is computed as
  zero. And a window of \<open>2^32 + 1\<close> samples divides its sum by one.
\<close>

lemma round_ne_tie:
  assumes "x = of_int k - 1 / 2" and "even k"
  shows "round_ne x = k"
proof -
  have "of_int (k - 1) \<le> (of_int k - 1 / 2 :: rat)"
    "(of_int k - 1 / 2 :: rat) < of_int (k - 1) + 1" by simp_all
  then have f: "\<lfloor>of_int k - 1 / 2 :: rat\<rfloor> = k - 1" by linarith
  show ?thesis unfolding assms(1) using assms(2) by (simp add: round_ne_def Let_def f)
qed

lemma fl_eval_tie:
  assumes "- 1022 \<le> e" and "2 powi e \<le> \<bar>x\<bar>" and "\<bar>x\<bar> < 2 powi (e + 1)"
    and "x / 2 powi (e - 52) = of_int k - 1 / 2" and "even k"
  shows "fl x = of_int k * 2 powi (e - 52)"
proof -
  have e: "ilog2 x = e" using assms(2,3) by (rule ilog2_unique)
  have "x \<noteq> 0"
  proof
    assume "x = 0"
    with assms(2) have "(2::rat) powi e \<le> 0" by simp
    moreover have "(0::rat) < 2 powi e" by (rule zero_less_power_int) simp
    ultimately show False by linarith
  qed
  moreover have "ulp_exponent x = e - 52" using assms(1) by (simp add: ulp_exponent_def e)
  ultimately show ?thesis
    by (simp add: fl_def Let_def round_ne_tie [OF assms(4,5)])
qed

lemma round_ne_tie_down:
  assumes "x = of_int k + 1 / 2" and "even k"
  shows "round_ne x = k"
proof -
  have "of_int k \<le> (of_int k + 1 / 2 :: rat)" "(of_int k + 1 / 2 :: rat) < of_int k + 1"
    by simp_all
  then have f: "\<lfloor>of_int k + 1 / 2 :: rat\<rfloor> = k" by linarith
  show ?thesis unfolding assms(1) using assms(2) by (simp add: round_ne_def Let_def f)
qed

lemma fl_eval_tie_down:
  assumes "- 1022 \<le> e" and "2 powi e \<le> \<bar>x\<bar>" and "\<bar>x\<bar> < 2 powi (e + 1)"
    and "x / 2 powi (e - 52) = of_int k + 1 / 2" and "even k"
  shows "fl x = of_int k * 2 powi (e - 52)"
proof -
  have e: "ilog2 x = e" using assms(2,3) by (rule ilog2_unique)
  have "x \<noteq> 0"
  proof
    assume "x = 0"
    with assms(2) have "(2::rat) powi e \<le> 0" by simp
    moreover have "(0::rat) < 2 powi e" by (rule zero_less_power_int) simp
    ultimately show False by linarith
  qed
  moreover have "ulp_exponent x = e - 52" using assms(1) by (simp add: ulp_exponent_def e)
  ultimately show ?thesis
    by (simp add: fl_def Let_def round_ne_tie_down [OF assms(4,5)])
qed

lemma to_double_small:
  assumes "\<bar>x\<bar> \<le> 1"
  shows "to_double x = Finite (fl x)"
proof (rule to_double_in_range)
  have "(1::rat) \<le> 2 ^ 1023" by simp
  with assms DBL_MAX_ge show "\<bar>x\<bar> \<le> DBL_MAX" by linarith
qed

lemma fadd_small:
  assumes "fl (x + y) = v" and "\<bar>x + y\<bar> \<le> 1"
  shows "fadd (Finite x) (Finite y) = Finite v"
  using to_double_small [OF assms(2)] assms(1) by simp

lemma small_double:
  assumes "fl x = x" and "\<bar>x\<bar> \<le> 1"
  shows "is_double x"
proof -
  have "(1::rat) \<le> 2 ^ 1023" by simp
  with assms(2) DBL_MAX_ge have "\<bar>x\<bar> \<le> DBL_MAX" by linarith
  with assms(1) show ?thesis by (simp only: is_double_def simp_thms)
qed

lemma edge_level_double: "is_double edge_level"
proof (rule small_double)
  have "fl (7378697629483820 / 2 ^ 65) = of_int 7378697629483820 * 2 powi (- 13 - 52)"
    by (rule fl_eval) simp_all
  then show "fl edge_level = edge_level" by (simp add: edge_level_def)
  show "\<bar>edge_level\<bar> \<le> 1" by (simp add: edge_level_def)
qed

lemma over_level_double: "is_double over_level"
proof (rule small_double)
  have "fl (7378697629483822 / 2 ^ 65) = of_int 7378697629483822 * 2 powi (- 13 - 52)"
    by (rule fl_eval) simp_all
  then show "fl over_level = over_level" by (simp add: over_level_def)
  show "\<bar>over_level\<bar> \<le> 1" by (simp add: over_level_def)
qed

lemma edge_level_below: "Finite edge_level < POWER_THRESHOLD"
  by (simp add: edge_level_def POWER_THRESHOLD_eq)

lemma edge_sum:
  "foldl fadd (Finite 0) (replicate 7 (Finite edge_level)) = Finite (6456360425798344 / 2 ^ 62)"
proof -
  have r: "replicate 7 (Finite edge_level) =
      [Finite edge_level, Finite edge_level, Finite edge_level, Finite edge_level,
       Finite edge_level, Finite edge_level, Finite edge_level]"
    by (simp add: numeral_eq_Suc)
  have 1: "fadd (Finite (0)) (Finite edge_level) = Finite (7378697629483820 / 2 ^ 65)"
  proof (rule fadd_small)
    have "fl (0 + 7378697629483820 / 2 ^ 65) = of_int 7378697629483820 * 2 powi (- 13 - 52)"
      by (rule fl_eval) simp_all
    then show "fl (0 + edge_level) = 7378697629483820 / 2 ^ 65"
      by (simp add: edge_level_def)
    show "\<bar>0 + edge_level\<bar> \<le> 1" by (simp add: edge_level_def)
  qed
  have 2: "fadd (Finite (7378697629483820 / 2 ^ 65)) (Finite edge_level) = Finite (7378697629483820 / 2 ^ 64)"
  proof (rule fadd_small)
    have "fl (7378697629483820 / 2 ^ 65 + 7378697629483820 / 2 ^ 65) = of_int 7378697629483820 * 2 powi (- 12 - 52)"
      by (rule fl_eval) simp_all
    then show "fl (7378697629483820 / 2 ^ 65 + edge_level) = 7378697629483820 / 2 ^ 64"
      by (simp add: edge_level_def)
    show "\<bar>7378697629483820 / 2 ^ 65 + edge_level\<bar> \<le> 1" by (simp add: edge_level_def)
  qed
  have 3: "fadd (Finite (7378697629483820 / 2 ^ 64)) (Finite edge_level) = Finite (5534023222112865 / 2 ^ 63)"
  proof (rule fadd_small)
    have "fl (7378697629483820 / 2 ^ 64 + 7378697629483820 / 2 ^ 65) = of_int 5534023222112865 * 2 powi (- 11 - 52)"
      by (rule fl_eval) simp_all
    then show "fl (7378697629483820 / 2 ^ 64 + edge_level) = 5534023222112865 / 2 ^ 63"
      by (simp add: edge_level_def)
    show "\<bar>7378697629483820 / 2 ^ 64 + edge_level\<bar> \<le> 1" by (simp add: edge_level_def)
  qed
  have 4: "fadd (Finite (5534023222112865 / 2 ^ 63)) (Finite edge_level) = Finite (7378697629483820 / 2 ^ 63)"
  proof (rule fadd_small)
    have "fl (5534023222112865 / 2 ^ 63 + 7378697629483820 / 2 ^ 65) = of_int 7378697629483820 * 2 powi (- 11 - 52)"
      by (rule fl_eval) simp_all
    then show "fl (5534023222112865 / 2 ^ 63 + edge_level) = 7378697629483820 / 2 ^ 63"
      by (simp add: edge_level_def)
    show "\<bar>5534023222112865 / 2 ^ 63 + edge_level\<bar> \<le> 1" by (simp add: edge_level_def)
  qed
  have 5: "fadd (Finite (7378697629483820 / 2 ^ 63)) (Finite edge_level) = Finite (4611686018427388 / 2 ^ 62)"
  proof (rule fadd_small)
    have "fl (7378697629483820 / 2 ^ 63 + 7378697629483820 / 2 ^ 65) = of_int 4611686018427388 * 2 powi (- 10 - 52)"
      by (rule fl_eval_tie) simp_all
    then show "fl (7378697629483820 / 2 ^ 63 + edge_level) = 4611686018427388 / 2 ^ 62"
      by (simp add: edge_level_def)
    show "\<bar>7378697629483820 / 2 ^ 63 + edge_level\<bar> \<le> 1" by (simp add: edge_level_def)
  qed
  have 6: "fadd (Finite (4611686018427388 / 2 ^ 62)) (Finite edge_level) = Finite (5534023222112866 / 2 ^ 62)"
  proof (rule fadd_small)
    have "fl (4611686018427388 / 2 ^ 62 + 7378697629483820 / 2 ^ 65) = of_int 5534023222112866 * 2 powi (- 10 - 52)"
      by (rule fl_eval_tie) simp_all
    then show "fl (4611686018427388 / 2 ^ 62 + edge_level) = 5534023222112866 / 2 ^ 62"
      by (simp add: edge_level_def)
    show "\<bar>4611686018427388 / 2 ^ 62 + edge_level\<bar> \<le> 1" by (simp add: edge_level_def)
  qed
  have 7: "fadd (Finite (5534023222112866 / 2 ^ 62)) (Finite edge_level) = Finite (6456360425798344 / 2 ^ 62)"
  proof (rule fadd_small)
    have "fl (5534023222112866 / 2 ^ 62 + 7378697629483820 / 2 ^ 65) = of_int 6456360425798344 * 2 powi (- 10 - 52)"
      by (rule fl_eval_tie) simp_all
    then show "fl (5534023222112866 / 2 ^ 62 + edge_level) = 6456360425798344 / 2 ^ 62"
      by (simp add: edge_level_def)
    show "\<bar>5534023222112866 / 2 ^ 62 + edge_level\<bar> \<le> 1" by (simp add: edge_level_def)
  qed
  show ?thesis
    unfolding r foldl_Cons foldl_Nil 1 2 3 4 5 6 7 ..
qed

lemma edge_mean:
  "computed_mean (replicate 7 (Finite edge_level)) = Some (Finite (7378697629483822 / 2 ^ 65))"
proof -
  have "fl (6456360425798344 / 2 ^ 62 / 7) = of_int 7378697629483822 * 2 powi (- 13 - 52)"
    by (rule fl_eval) simp_all
  moreover have "to_double (6456360425798344 / 2 ^ 62 / 7) = Finite (fl (6456360425798344 / 2 ^ 62 / 7))"
    by (rule to_double_small) simp
  ultimately have t: "to_double (6456360425798344 / 2 ^ 62 / 7) = Finite (7378697629483822 / 2 ^ 65)"
    by simp
  have "computed_mean (replicate 7 (Finite edge_level))
      = Some (to_double (6456360425798344 / 2 ^ 62 / of_nat (length (replicate 7 (Finite edge_level)))))"
    by (rule computed_mean_Finite) (simp_all add: edge_sum)
  then show ?thesis using t by simp
qed

lemma edge_recorded: "step_records (replicate 7 (Finite edge_level))"
  by (simp add: step_records_def edge_mean POWER_THRESHOLD_eq)

lemma edge_mean_below: "\<not> mean_exceeds_threshold (replicate 7 edge_level)"
  by (simp add: mean_exceeds_threshold_def arithmetic_mean_replicate edge_level_def)

lemma over_sum:
  "foldl fadd (Finite 0) (replicate 3 (Finite over_level)) = Finite (5534023222112866 / 2 ^ 63)"
proof -
  have r: "replicate 3 (Finite over_level) = [Finite over_level, Finite over_level, Finite over_level]"
    by (simp add: numeral_eq_Suc)
  have 1: "fadd (Finite (0)) (Finite over_level) = Finite (7378697629483822 / 2 ^ 65)"
  proof (rule fadd_small)
    have "fl (0 + 7378697629483822 / 2 ^ 65) = of_int 7378697629483822 * 2 powi (- 13 - 52)"
      by (rule fl_eval) simp_all
    then show "fl (0 + over_level) = 7378697629483822 / 2 ^ 65"
      by (simp add: over_level_def)
    show "\<bar>0 + over_level\<bar> \<le> 1" by (simp add: over_level_def)
  qed
  have 2: "fadd (Finite (7378697629483822 / 2 ^ 65)) (Finite over_level) = Finite (7378697629483822 / 2 ^ 64)"
  proof (rule fadd_small)
    have "fl (7378697629483822 / 2 ^ 65 + 7378697629483822 / 2 ^ 65) = of_int 7378697629483822 * 2 powi (- 12 - 52)"
      by (rule fl_eval) simp_all
    then show "fl (7378697629483822 / 2 ^ 65 + over_level) = 7378697629483822 / 2 ^ 64"
      by (simp add: over_level_def)
    show "\<bar>7378697629483822 / 2 ^ 65 + over_level\<bar> \<le> 1" by (simp add: over_level_def)
  qed
  have 3: "fadd (Finite (7378697629483822 / 2 ^ 64)) (Finite over_level) = Finite (5534023222112866 / 2 ^ 63)"
  proof (rule fadd_small)
    have "fl (7378697629483822 / 2 ^ 64 + 7378697629483822 / 2 ^ 65) = of_int 5534023222112866 * 2 powi (- 11 - 52)"
      by (rule fl_eval_tie_down) simp_all
    then show "fl (7378697629483822 / 2 ^ 64 + over_level) = 5534023222112866 / 2 ^ 63"
      by (simp add: over_level_def)
    show "\<bar>7378697629483822 / 2 ^ 64 + over_level\<bar> \<le> 1" by (simp add: over_level_def)
  qed
  show ?thesis
    unfolding r foldl_Cons foldl_Nil 1 2 3 ..
qed

lemma over_mean:
  "computed_mean (replicate 3 (Finite over_level)) = Some (Finite (7378697629483821 / 2 ^ 65))"
proof -
  have "fl (5534023222112866 / 2 ^ 63 / 3) = of_int 7378697629483821 * 2 powi (- 13 - 52)"
    by (rule fl_eval) simp_all
  moreover have "to_double (5534023222112866 / 2 ^ 63 / 3) = Finite (fl (5534023222112866 / 2 ^ 63 / 3))"
    by (rule to_double_small) simp
  ultimately have t: "to_double (5534023222112866 / 2 ^ 63 / 3) = Finite (7378697629483821 / 2 ^ 65)"
    by simp
  have "computed_mean (replicate 3 (Finite over_level))
      = Some (to_double (5534023222112866 / 2 ^ 63 / of_nat (length (replicate 3 (Finite over_level)))))"
    by (rule computed_mean_Finite) (simp_all add: over_sum)
  then show ?thesis using t by simp
qed

lemma over_not_recorded: "\<not> step_records (replicate 3 (Finite over_level))"
  by (simp add: step_records_def over_mean POWER_THRESHOLD_eq)

lemma over_mean_above:
  "mean_exceeds_threshold (replicate 3 over_level) \<and> POWER_THRESHOLD < Finite over_level"
  by (simp add: mean_exceeds_threshold_def arithmetic_mean_replicate over_level_def
      POWER_THRESHOLD_eq)

lemma wrapped_counter_recorded:
  "step_records (replicate (2 ^ 32 + 1) (Finite (1 / 10000)))"
proof -
  define N :: nat where "N = 2 ^ 32 + 1"
  define xs where "xs = replicate N (Finite (1 / 10000))"
  have w: "(of_nat N :: 32 word) = 1" by (simp add: N_def)
  have NR: "(of_nat N :: rat) = 2 ^ 32 + 1" by (simp add: N_def)
  have xs: "xs = map Finite (replicate N (1 / 10000))" by (simp add: xs_def)
  have len: "length xs = N" by (simp add: xs_def)
  have cm: "computed_mean xs = fdiv (foldl fadd (Finite 0) xs) (Finite 1)"
    unfolding computed_mean_def len w by (simp add: double_of_uint_def)
  have pos: "(0 :: 32 word) < of_nat (length xs)" unfolding len w by simp
  have "\<forall>r\<in>set (replicate N (1 / 10000 :: rat)). 0 \<le> r" by simp
  from foldl_fadd_lower [OF this, of 0 "Finite 0" 0]
  consider "foldl fadd (Finite 0) xs = Pos_inf"
    | s where "foldl fadd (Finite 0) xs = Finite s" "0 \<le> s"
      "of_nat N * (1 / 10000) * (1 - of_nat N * REL_SLACK) - of_nat N * ABS_SLACK \<le> s"
    unfolding xs by (auto simp: sum_list_replicate)
  then have "step_records xs"
  proof cases
    case 1
    with pos show ?thesis
      by (simp add: step_records_def cm inf_of_sign_def POWER_THRESHOLD_eq)
  next
    case 2
    have "(1::rat) \<le> of_nat N * (1 / 10000) * (1 - of_nat N * REL_SLACK) - of_nat N * ABS_SLACK"
      unfolding NR by (simp add: REL_SLACK_def ABS_SLACK_def)
    with 2(3) have s1: "1 \<le> s" by linarith
    have "7378697629483821 / 2 ^ 65 < 1 * (1 - 1 / 2 ^ 53) - ABS_SLACK / 2"
      by (simp add: ABS_SLACK_def)
    also have "\<dots> \<le> s * (1 - 1 / 2 ^ 53) - ABS_SLACK / 2"
      using s1 by (intro diff_right_mono mult_right_mono) simp_all
    also have "\<dots> \<le> fl s" using 2(2) by (rule fl_lower)
    finally have "7378697629483821 / 2 ^ 65 < fl s" .
    then show ?thesis
      using 2(1,2) pos
      by (simp add: step_records_def cm POWER_THRESHOLD_eq to_double_nonneg)
  qed
  then show ?thesis by (simp only: xs_def N_def)
qed

lemma cancellation_not_recorded:
  "mean_exceeds_threshold [2 ^ 54, 1, - (2 ^ 54)]
   \<and> \<not> step_records [Finite (2 ^ 54), Finite 1, Finite (- (2 ^ 54))]"
proof -
  have 1: "fadd (Finite 0) (Finite (2 ^ 54)) = Finite (2 ^ 54)"
  proof -
    have "to_double (0 + 2 ^ 54) = Finite (of_int (2 ^ 52) * 2 powi (54 - 52))"
      by (rule to_double_eval) simp_all
    then show ?thesis by simp
  qed
  have 2: "fadd (Finite (2 ^ 54)) (Finite 1) = Finite (2 ^ 54)"
  proof -
    have "to_double (2 ^ 54 + 1) = Finite (of_int (2 ^ 52) * 2 powi (54 - 52))"
      by (rule to_double_eval) simp_all
    then show ?thesis by simp
  qed
  have 3: "fadd (Finite (2 ^ 54)) (Finite (- (2 ^ 54))) = Finite 0" by simp
  have s: "foldl fadd (Finite 0) [Finite (2 ^ 54), Finite 1, Finite (- (2 ^ 54))] = Finite 0"
    unfolding foldl_Cons foldl_Nil 1 2 3 ..
  have "computed_mean [Finite (2 ^ 54), Finite 1, Finite (- (2 ^ 54))] = Some (Finite 0)"
    unfolding computed_mean_def s by (simp add: double_of_uint_def)
  then have "\<not> step_records [Finite (2 ^ 54), Finite 1, Finite (- (2 ^ 54))]"
    by (simp add: step_records_def POWER_THRESHOLD_eq)
  moreover have "mean_exceeds_threshold [2 ^ 54, 1, - (2 ^ 54)]"
    by (simp add: mean_exceeds_threshold_def arithmetic_mean_def)
  ultimately show ?thesis by simp
qed


section \<open>The stations chosen by a rule\<close>

lemma stations_by_all:
  assumes "\<And>i win. win \<in> set wins \<Longrightarrow> P (window_samples lev i win)"
  shows "stations_by P lev k i wins = map sweep_freq [k..<k + length wins]"
  using assms
proof (induction wins arbitrary: k i)
  case Nil
  show ?case by simp
next
  case (Cons win wins)
  have "stations_by P lev (Suc k) (i + window_size win) wins
      = map sweep_freq [Suc k..<Suc k + length wins]"
    by (rule Cons.IH) (simp add: Cons.prems)
  moreover have "[k..<k + length (win # wins)] = k # [Suc k..<Suc k + length wins]"
    using upt_conv_Cons [of k "k + Suc (length wins)"] by simp
  ultimately show ?case using Cons.prems [of win i] by (simp del: sweep_freq.simps)
qed

lemma stations_by_none:
  assumes "\<And>i win. win \<in> set wins \<Longrightarrow> \<not> P (window_samples lev i win)"
  shows "stations_by P lev k i wins = []"
  using assms by (induction wins arbitrary: k i) simp_all

lemma stations_by_cong:
  assumes "\<And>i win. win \<in> set wins \<Longrightarrow>
      P (window_samples lev i win) = Q (window_samples lev i win)"
  shows "stations_by P lev k i wins = stations_by Q lev k i wins"
  using assms by (induction wins arbitrary: k i) simp_all

lemma set_stations_by:
  "set (stations_by P lev k i wins) \<subseteq> sweep_freq ` {k..<k + length wins}"
proof (induction wins arbitrary: k i)
  case Nil
  show ?case by simp
next
  case (Cons win wins)
  have "set (stations_by P lev (Suc k) (i + window_size win) wins)
      \<subseteq> sweep_freq ` {Suc k..<Suc k + length wins}"
    by (rule Cons.IH)
  also have "\<dots> \<subseteq> sweep_freq ` {k..<k + length (win # wins)}"
    by (intro image_mono) auto
  finally have "set (stations_by P lev (Suc k) (i + window_size win) wins)
      \<subseteq> sweep_freq ` {k..<k + length (win # wins)}" .
  moreover have "sweep_freq k \<in> sweep_freq ` {k..<k + length (win # wins)}"
    by (intro imageI) simp
  ultimately show ?case by (auto simp del: sweep_freq.simps)
qed

lemma sweep_freq_inj:
  assumes "i \<le> 100" and "j \<le> 100" and "sweep_freq i = sweep_freq j"
  shows "i = j"
  using assms by (simp add: sweep_freq_eq)

lemma stations_by_mem:
  assumes "k + length wins \<le> 100" and "j < length wins"
  shows "(sweep_freq (k + j) \<in> set (stations_by P lev k i wins)) =
     P (window_samples lev (i + sum_list (map window_size (take j wins))) (wins ! j))"
  using assms
proof (induction wins arbitrary: k i j)
  case Nil
  then show ?case by simp
next
  case (Cons win wins)
  show ?case
  proof (cases j)
    case 0
    have "sweep_freq k \<notin> set (stations_by P lev (Suc k) (i + window_size win) wins)"
    proof
      assume "sweep_freq k \<in> set (stations_by P lev (Suc k) (i + window_size win) wins)"
      with set_stations_by [of P lev "Suc k" "i + window_size win" wins]
      have "sweep_freq k \<in> sweep_freq ` {Suc k..<Suc k + length wins}" by blast
      then obtain m where m: "Suc k \<le> m" "m < Suc k + length wins" "sweep_freq k = sweep_freq m"
        by (auto simp del: sweep_freq.simps)
      with Cons.prems(1) have "k = m" by (intro sweep_freq_inj) simp_all
      with m(1) show False by simp
    qed
    with 0 show ?thesis by (simp del: sweep_freq.simps)
  next
    case (Suc j')
    have ne: "sweep_freq (k + j) \<noteq> sweep_freq k"
    proof
      assume "sweep_freq (k + j) = sweep_freq k"
      with Cons.prems have "k + j = k" by (intro sweep_freq_inj) simp_all
      with Suc show False by simp
    qed
    have "(sweep_freq (Suc k + j') \<in> set (stations_by P lev (Suc k) (i + window_size win) wins))
        = P (window_samples lev (i + window_size win + sum_list (map window_size (take j' wins)))
              (wins ! j'))"
      using Cons.prems Suc by (intro Cons.IH) simp_all
    with Suc ne show ?thesis by (simp add: add.assoc del: sweep_freq.simps)
  qed
qed

lemma window_size_clock:
  assumes "win \<in> set wins"
  shows "window_size win < length (concat (map window_clock wins))"
  using assms
proof (induction wins)
  case Nil
  then show ?case by simp
next
  case (Cons a wins)
  have l: "length (window_clock v) = window_size v + 2" for v
    by (cases v) (simp add: window_clock_def window_size_def)
  from Cons show ?case by (auto simp: l)
qed

lemma sorted_sweep_freqs: "sorted_wrt (<) (map sweep_freq [0..<100])"
  by (simp add: sorted_wrt_iff_nth_less sweep_freq_mono del: sweep_freq.simps)


section \<open>Paced clocks and the frequency left by a scan\<close>

lemma window_size_paced [simp]: "window_size (paced_window n i) = n"
  by (simp add: window_size_def paced_window_def)

lemma elapsed_ms_after:
  assumes "0 \<le> d" and "d < 2 ^ 63"
  shows "elapsed_ms (word_of_int a) (word_of_int (a + d)) = d div 1000000"
proof -
  have "(word_of_int (a + d) - word_of_int a :: 64 word) = word_of_int d" by simp
  moreover have "sint (word_of_int d :: 64 word) = d"
    using assms by (simp add: sint_sbintrunc' signed_take_bit_int_eq_self)
  ultimately show ?thesis using assms(1) by (simp add: elapsed_ms_def)
qed

lemma window_ok_paced:
  assumes "n < 200"
  shows "window_ok (paced_window n i)"
proof -
  have "elapsed_ms (word_of_int (int i * 1200000000))
      (word_of_int (int i * 1200000000 + int j * 1000000)) < MEASURE_MS"
    if "j \<le> n" for j
  proof -
    have d: "0 \<le> int j * 1000000" "int j * 1000000 < 2 ^ 63" using that assms by simp_all
    have "int j * 1000000 div 1000000 < 200" using that assms by simp
    then show ?thesis unfolding elapsed_ms_after [OF d] MEASURE_MS_def .
  qed
  moreover have "\<not> elapsed_ms (word_of_int (int i * 1200000000))
      (word_of_int (int i * 1200000000 + 200000000)) < MEASURE_MS"
  proof -
    have d: "(0::int) \<le> 200000000" "(200000000::int) < 2 ^ 63" by simp_all
    have "\<not> (200000000::int) div 1000000 < 200" by simp
    then show ?thesis unfolding elapsed_ms_after [OF d] MEASURE_MS_def .
  qed
  ultimately show ?thesis
    by (auto simp: window_ok_def paced_window_def list_all_iff)
qed

lemma paced_windows_ok:
  assumes "\<And>i. i < 100 \<Longrightarrow> sizes i < 200"
  shows "list_all window_ok (paced_windows sizes)"
  using assms by (simp add: paced_windows_def list_all_iff window_ok_paced)

lemma length_paced_windows [simp]: "length (paced_windows sizes) = 100"
  by (simp add: paced_windows_def)

lemma paced_window_size:
  assumes "win \<in> set (paced_windows sizes)"
  shows "\<exists>i<100. window_size win = sizes i"
  using assms by (auto simp: paced_windows_def)

lemma window_samples_const:
  "window_samples (\<lambda>k. c) i win = replicate (window_size win) c"
  by (simp add: window_samples_def map_replicate_const)

lemma clock_paced_world:
  "clock (paced_world c sizes) = concat (map window_clock (paced_windows sizes)) @ []"
  by (simp add: paced_world_def)

lemma length_sample_stations: "length (station_list sample_ctx) = MAX_FM_STATIONS"
  by (simp add: sample_ctx_def)

lemma sweep_freq_99: "sweep_freq 99 = Finite (7578713747934433 / 2 ^ 46)"
  by (simp add: sweep_freq_eq)

lemma last_center_freq:
  "fmul (sweep_freq 99) (to_double 1000000) = Finite (7227624652800019 / 2 ^ 26)"
proof -
  have "to_double (7578713747934433 / 2 ^ 46 * 1000000)
      = Finite (of_int 7227624652800019 * 2 powi (26 - 52))"
    by (rule to_double_eval) simp_all
  then show ?thesis by (simp add: sweep_freq_99 mega)
qed

lemma last_center_freq_mhz:
  "fdiv (fmul (sweep_freq 99) (to_double 1000000)) (to_double 1000000) = Some (sweep_freq 99)"
proof -
  have "to_double (7227624652800019 / 2 ^ 26 / 1000000)
      = Finite (of_int 7578713747934433 * 2 powi (6 - 52))"
    by (rule to_double_eval) simp_all
  then have "fdiv (Finite (7227624652800019 / 2 ^ 26)) (Finite 1000000)
      = Some (Finite (7578713747934433 / 2 ^ 46))"
    by simp
  then show ?thesis unfolding last_center_freq unfolding mega sweep_freq_99 .
qed

lemma sample_ctx_mhz: "rtl_get_fm (Some sample_ctx) = Inr (Finite (7170575031703962 / 2 ^ 46))"
proof -
  have "to_double (101900000 / 1000000) = Finite (of_int 7170575031703962 * 2 powi (6 - 52))"
    by (rule to_double_eval) simp_all
  then show ?thesis by (simp add: rtl_get_fm_def sample_ctx_def mega)
qed

text \<open>
  The two conversions do not always give back the frequency exactly: for the twelfth sweep
  frequency, 90.10000000000004 MHz, the value read back is one unit in the last place
  lower.
\<close>

lemma roundtrip_inexact:
  "\<exists>ctx'. rtl_set_fm (Some sample_ctx) (sweep_freq 11) = Inr ctx'
     \<and> rtl_get_fm (Some ctx') = Inr (Finite (6340223850407528 / 2 ^ 46))
     \<and> sweep_freq 11 = Finite (6340223850407529 / 2 ^ 46)"
proof -
  have f: "sweep_freq 11 = Finite (6340223850407529 / 2 ^ 46)" by (simp add: sweep_freq_eq)
  have "to_double (6340223850407529 / 2 ^ 46 * 1000000)
      = Finite (of_int 6046508646400002 * 2 powi (26 - 52))"
    by (rule to_double_eval) simp_all
  then have h: "fmul (sweep_freq 11) (to_double 1000000) = Finite (6046508646400002 / 2 ^ 26)"
    by (simp add: f mega)
  have "to_double (6046508646400002 / 2 ^ 26 / 1000000)
      = Finite (of_int 6340223850407528 * 2 powi (6 - 52))"
    by (rule to_double_eval) simp_all
  then have "fdiv (Finite (6046508646400002 / 2 ^ 26)) (to_double 1000000)
      = Some (Finite (6340223850407528 / 2 ^ 46))"
    by (simp add: mega)
  then have "rtl_get_fm (Some (sample_ctx\<lparr>center_freq := fmul (sweep_freq 11) (to_double 1000000)\<rparr>))
      = Inr (Finite (6340223850407528 / 2 ^ 46))"
    unfolding h by (simp add: rtl_get_fm_def)
  with f show ?thesis by (simp add: rtl_set_fm_def del: sweep_freq.simps)
qed

lemma scan_center_freq:
  assumes "scan_fm_stations (Some ctx) w = Some (Inr (ctx', w'))"
  shows "center_freq ctx' = fmul (sweep_freq 99) (to_double 1000000)"
proof -
  let ?w0 = "printf Starting_scan w"
  let ?out = "uninitialised_array w"
  from assms obtain tuner' found out w1 where
    sw: "sweep (sweep_freq 0) (Some ctx) (0, ?out) ?w0 = Some (Inr (tuner', (found, out), w1))"
    by (auto simp: scan_fm_stations_def split: option.splits sum.splits)
  have u: "length ?out = MAX_FM_STATIONS" by (simp add: uninitialised_array_def)
  from sweep_complete [OF sw u]
  obtain wins rest where c: "clock ?w0 = concat (map window_clock wins) @ rest"
    and ok: "list_all window_ok wins" and len: "length wins = 100"
    by blast
  have k: "0 + length wins = 100" and ne: "wins \<noteq> []" using len by auto
  from sweep_windows [OF k ok c _ u, of 0 ctx] sw ne
  have t: "tuner' = Some (ctx\<lparr>center_freq := fmul (sweep_freq 99) (to_double 1000000)\<rparr>)"
    by auto
  from assms sw t show ?thesis
    by (auto simp: scan_fm_stations_def split: sum.splits)
qed


section \<open>Results of a scan over given windows\<close>

text \<open>
  The result of \<open>scan_fm_stations\<close> and of \<open>rtl_get_fm_stations\<close> over a clock of 100
  windows, and what it is when every reading is one constant.
\<close>

lemma scan_result:
  assumes "length wins = 100" and "list_all window_ok wins"
    and "clock w = concat (map window_clock wins) @ rest"
    and "length (station_list ctx) = MAX_FM_STATIONS"
    and "ds = stations_by step_records (level w) 0 (level_calls w) wins"
  shows "\<exists>found w'.
     scan_fm_stations (Some ctx) w =
       Some (Inr (ctx\<lparr>center_freq := fmul (sweep_freq 99) (to_double 1000000),
                      station_list := ds @ drop (length ds) (station_list ctx),
                      station_list_len := found\<rparr>, w'))
     \<and> unat found = length ds \<and> length ds \<le> MAX_FM_STATIONS"
proof -
  from scan_windows [OF assms(1-4)]
  obtain found out w' where
    r: "scan_fm_stations (Some ctx) w =
       Some (Inr (ctx\<lparr>center_freq := fmul (sweep_freq 99) (to_double 1000000),
                      station_list := take (unat found) out @ drop (unat found) (station_list ctx),
                      station_list_len := found\<rparr>, w'))"
    and f: "unat found \<le> MAX_FM_STATIONS" and o: "length out = MAX_FM_STATIONS"
    and t: "take (unat found) out = ds"
    unfolding assms(5) by blast
  have "length (take (unat found) out) = unat found" using f o by simp
  then have l: "unat found = length ds" by (simp only: t)
  from r have "scan_fm_stations (Some ctx) w =
       Some (Inr (ctx\<lparr>center_freq := fmul (sweep_freq 99) (to_double 1000000),
                      station_list := ds @ drop (length ds) (station_list ctx),
                      station_list_len := found\<rparr>, w'))"
    unfolding t unfolding l .
  with l f show ?thesis by auto
qed

lemma get_stations_result:
  assumes "length wins = 100" and "list_all window_ok wins"
    and "clock w = concat (map window_clock wins) @ rest"
    and "length (station_list ctx) = MAX_FM_STATIONS"
    and "MAX_FM_STATIONS \<le> length stations_out"
    and "ds = stations_by step_records (level w) 0 (level_calls w) wins"
  shows "\<exists>found w'.
     rtl_get_fm_stations (Some ctx) stations_out w =
       Some (Inr (found, ds @ drop (length ds) stations_out,
         ctx\<lparr>center_freq := fmul (sweep_freq 99) (to_double 1000000),
              station_list := ds @ drop (length ds) (station_list ctx),
              station_list_len := found\<rparr>, w'))
     \<and> unat found = length ds \<and> length ds \<le> MAX_FM_STATIONS"
proof -
  from get_stations_windows [OF assms(1-5)]
  obtain found out w' where
    r: "rtl_get_fm_stations (Some ctx) stations_out w =
       Some (Inr (found, take (unat found) out @ drop (unat found) stations_out,
         ctx\<lparr>center_freq := fmul (sweep_freq 99) (to_double 1000000),
              station_list := take (unat found) out @ drop (unat found) (station_list ctx),
              station_list_len := found\<rparr>, w'))"
    and f: "unat found \<le> MAX_FM_STATIONS" and o: "length out = MAX_FM_STATIONS"
    and t: "take (unat found) out = ds"
    unfolding assms(6) by blast
  have "length (take (unat found) out) = unat found" using f o by simp
  then have l: "unat found = length ds" by (simp only: t)
  from r have "rtl_get_fm_stations (Some ctx) stations_out w =
       Some (Inr (found, ds @ drop (length ds) stations_out,
         ctx\<lparr>center_freq := fmul (sweep_freq 99) (to_double 1000000),
              station_list := ds @ drop (length ds) (station_list ctx),
              station_list_len := found\<rparr>, w'))"
    unfolding t unfolding l .
  with l f show ?thesis by auto
qed

lemma word_of_unat:
  fixes found :: "32 word"
  shows "unat found = n \<Longrightarrow> found = of_nat n"
  by auto

lemma level_const: "\<forall>i. level w i = c \<Longrightarrow> level w = (\<lambda>k. c)"
  by (rule ext) simp

lemma stations_found_update:
  assumes "unat found = length ds"
  shows "stations_found (ctx\<lparr>center_freq := f, station_list := ds @ rest, station_list_len := found\<rparr>)
     = ds"
  using assms by (simp add: stations_found_def)

lemma paced_scan:
  assumes "\<And>i. i < 100 \<Longrightarrow> sizes i < 200"
    and "length (station_list ctx) = MAX_FM_STATIONS"
    and "ds = stations_by step_records (\<lambda>k. c) 0 0 (paced_windows sizes)"
  shows "\<exists>found w'.
     scan_fm_stations (Some ctx) (paced_world c sizes) =
       Some (Inr (ctx\<lparr>center_freq := fmul (sweep_freq 99) (to_double 1000000),
                      station_list := ds @ drop (length ds) (station_list ctx),
                      station_list_len := found\<rparr>, w'))
     \<and> unat found = length ds \<and> length ds \<le> MAX_FM_STATIONS"
proof -
  have ok: "list_all window_ok (paced_windows sizes)"
    by (rule paced_windows_ok) (rule assms(1))
  have c: "clock (paced_world c sizes) = concat (map window_clock (paced_windows sizes)) @ []"
    by (rule clock_paced_world)
  have d: "ds = stations_by step_records (level (paced_world c sizes)) 0
       (level_calls (paced_world c sizes)) (paced_windows sizes)"
    unfolding assms(3) by (simp add: paced_world_def)
  show ?thesis by (rule scan_result [OF length_paced_windows ok c assms(2) d])
qed

lemma paced_get_stations:
  assumes "\<And>i. i < 100 \<Longrightarrow> sizes i < 200"
    and "length (station_list ctx) = MAX_FM_STATIONS"
    and "MAX_FM_STATIONS \<le> length stations_out"
    and "ds = stations_by step_records (\<lambda>k. c) 0 0 (paced_windows sizes)"
  shows "\<exists>found w'.
     rtl_get_fm_stations (Some ctx) stations_out (paced_world c sizes) =
       Some (Inr (found, ds @ drop (length ds) stations_out,
         ctx\<lparr>center_freq := fmul (sweep_freq 99) (to_double 1000000),
              station_list := ds @ drop (length ds) (station_list ctx),
              station_list_len := found\<rparr>, w'))
     \<and> unat found = length ds \<and> length ds \<le> MAX_FM_STATIONS"
proof -
  have ok: "list_all window_ok (paced_windows sizes)"
    by (rule paced_windows_ok) (rule assms(1))
  have c: "clock (paced_world c sizes) = concat (map window_clock (paced_windows sizes)) @ []"
    by (rule clock_paced_world)
  have d: "ds = stations_by step_records (level (paced_world c sizes)) 0
       (level_calls (paced_world c sizes)) (paced_windows sizes)"
    unfolding assms(4) by (simp add: paced_world_def)
  show ?thesis by (rule get_stations_result [OF length_paced_windows ok c assms(2,3) d])
qed

lemma length_zero_buffer: "MAX_FM_STATIONS \<le> length zero_buffer"
  by (simp add: zero_buffer_def MAX_FM_STATIONS_def)

lemma first_stalled_sizes: "i < 100 \<Longrightarrow> first_stalled i < 200"
  by (simp add: first_stalled_def)

lemma first_stalled_stations:
  assumes "Finite (2000001 / 10 ^ 10) \<le> c"
  shows "stations_by step_records (\<lambda>k. c) 0 0 (paced_windows first_stalled)
     = map sweep_freq [1..<100]"
proof -
  let ?rest = "map (\<lambda>i. paced_window (first_stalled i) i) [1..<100]"
  have u: "[0..<100] = 0 # [1..<100]" using upt_conv_Cons [of 0 100] by simp
  have p: "paced_windows first_stalled = paced_window 0 0 # ?rest"
    by (simp add: paced_windows_def u first_stalled_def)
  have "step_records (window_samples (\<lambda>k. c) i win)" if "win \<in> set ?rest" for i win
  proof -
    from that have "window_size win = 3" by (auto simp: first_stalled_def)
    then show ?thesis
      using assms by (simp add: window_samples_const strong_constant_recorded)
  qed
  then have "stations_by step_records (\<lambda>k. c) (Suc 0) 0 ?rest
      = map sweep_freq [Suc 0..<Suc 0 + length ?rest]"
    by (rule stations_by_all)
  moreover have "\<not> step_records (window_samples (\<lambda>k. c) 0 (paced_window 0 0))"
    by (simp add: window_samples_const step_records_def)
  ultimately show ?thesis by (simp add: p del: sweep_freq.simps)
qed

lemma sweep_freqs_below_end:
  "filter (\<lambda>f. f < BAND_END) (map sweep_freq [0..<100]) = map sweep_freq [0..<100]"
  by (rule filter_True) (auto simp: sweep_freq_below_end simp del: sweep_freq.simps)

lemma scan_strong_signal:
  assumes "length wins = 100" and "list_all window_ok wins"
    and "\<forall>win\<in>set wins. 0 < window_size win \<and> window_size win < 2 ^ 32"
    and "clock w = concat (map window_clock wins) @ rest"
    and "\<forall>i. level w i = c" and "Finite (2000001 / 10 ^ 10) \<le> c"
    and "length (station_list ctx) = MAX_FM_STATIONS"
  shows "\<exists>ctx' w'. scan_fm_stations (Some ctx) w = Some (Inr (ctx', w'))
     \<and> station_list_len ctx' = 100 \<and> station_list ctx' = map sweep_freq [0..<100]
     \<and> stations_found ctx' = map sweep_freq [0..<100]"
proof -
  define ds where "ds = stations_by step_records (level w) 0 (level_calls w) wins"
  have lev: "level w = (\<lambda>k. c)" using assms(5) by (rule level_const)
  have det: "step_records (window_samples (level w) i win)" if "win \<in> set wins" for i win
  proof -
    from that assms(3) have "0 < window_size win" "window_size win < 2 ^ 32" by auto
    then show ?thesis
      using assms(6) unfolding lev by (simp add: window_samples_const strong_constant_recorded)
  qed
  have "ds = map sweep_freq [0..<0 + length wins]"
    unfolding ds_def using det by (rule stations_by_all)
  then have ds: "ds = map sweep_freq [0..<100]" by (simp add: assms(1))
  then have len: "length ds = 100" by simp
  from scan_result [OF assms(1,2,4,7) ds_def]
  obtain found w' where
    r: "scan_fm_stations (Some ctx) w =
       Some (Inr (ctx\<lparr>center_freq := fmul (sweep_freq 99) (to_double 1000000),
                      station_list := ds @ drop (length ds) (station_list ctx),
                      station_list_len := found\<rparr>, w'))"
    and u: "unat found = length ds"
    by blast
  have f: "found = 100" using word_of_unat [OF u] len by simp
  have l: "ds @ drop (length ds) (station_list ctx) = map sweep_freq [0..<100]"
    using assms(7) len ds by (simp add: MAX_FM_STATIONS_def)
  have "stations_found (ctx\<lparr>center_freq := fmul (sweep_freq 99) (to_double 1000000),
                      station_list := ds @ drop (length ds) (station_list ctx),
                      station_list_len := found\<rparr>) = map sweep_freq [0..<100]"
    using stations_found_update [OF u] ds by simp
  with r f l show ?thesis by simp
qed

lemma scan_constant_strong:
  assumes "Finite (2000001 / 10 ^ 10) \<le> c"
  shows "\<exists>ctx' w'. scan_fm_stations (Some sample_ctx) (paced_world c (\<lambda>i. 3)) = Some (Inr (ctx', w'))
     \<and> station_list_len ctx' = 100 \<and> station_list ctx' = map sweep_freq [0..<100]
     \<and> stations_found ctx' = map sweep_freq [0..<100]"
proof (rule scan_strong_signal)
  show "length (paced_windows (\<lambda>i. 3)) = 100" by simp
  show "list_all window_ok (paced_windows (\<lambda>i. 3))" by (rule paced_windows_ok) simp
  show "\<forall>win\<in>set (paced_windows (\<lambda>i. 3)). 0 < window_size win \<and> window_size win < 2 ^ 32"
    by (auto dest: paced_window_size)
  show "clock (paced_world c (\<lambda>i. 3)) = concat (map window_clock (paced_windows (\<lambda>i. 3))) @ []"
    by (rule clock_paced_world)
  show "\<forall>i. level (paced_world c (\<lambda>i. 3)) i = c" by (simp add: paced_world_def)
  show "Finite (2000001 / 10 ^ 10) \<le> c" by (rule assms)
  show "length (station_list sample_ctx) = MAX_FM_STATIONS" by (rule length_sample_stations)
qed

lemma get_stations_weak_signal:
  assumes "length wins = 100" and "list_all window_ok wins"
    and "\<forall>win\<in>set wins. window_size win < 2 ^ 32"
    and "clock w = concat (map window_clock wins) @ rest"
    and "\<forall>i. level w i = c" and "c \<le> Finite (1999999 / 10 ^ 10)"
    and "length (station_list ctx) = MAX_FM_STATIONS"
    and "MAX_FM_STATIONS \<le> length stations_out"
  shows "\<exists>ctx' w'. rtl_get_fm_stations (Some ctx) stations_out w
       = Some (Inr (0, stations_out, ctx', w'))
     \<and> station_list_len ctx' = 0 \<and> station_list ctx' = station_list ctx
     \<and> stations_found ctx' = []"
proof -
  define ds where "ds = stations_by step_records (level w) 0 (level_calls w) wins"
  have lev: "level w = (\<lambda>k. c)" using assms(5) by (rule level_const)
  have "\<not> step_records (window_samples (level w) i win)" if "win \<in> set wins" for i win
  proof -
    from that assms(3) have "window_size win < 2 ^ 32" by auto
    then show ?thesis
      using assms(6) unfolding lev by (simp add: window_samples_const weak_constant_not_recorded)
  qed
  then have ds: "ds = []" unfolding ds_def by (rule stations_by_none)
  from get_stations_result [OF assms(1,2,4,7,8) ds_def]
  obtain found w' where
    r: "rtl_get_fm_stations (Some ctx) stations_out w =
       Some (Inr (found, ds @ drop (length ds) stations_out,
         ctx\<lparr>center_freq := fmul (sweep_freq 99) (to_double 1000000),
              station_list := ds @ drop (length ds) (station_list ctx),
              station_list_len := found\<rparr>, w'))"
    and u: "unat found = length ds"
    by blast
  have f: "found = 0" using word_of_unat [OF u] ds by simp
  from r f ds show ?thesis by (simp add: stations_found_def)
qed


section \<open>Setting a frequency and reading it back\<close>

text \<open>
  \<open>rtl_set_fm\<close> rounds the product \<open>f * 10^6\<close> and \<open>rtl_get_fm\<close> rounds the quotient
  by \<open>10^6\<close>. For a normal \<open>f\<close> each rounding is within \<open>2^-53\<close>; for a subnormal
  double \<open>f\<close> the value read back is \<open>f\<close> itself. A product of \<open>2^1025\<close> or more
  overflows.
\<close>

lemma ulp_exponent_subnormal:
  assumes "x \<noteq> 0" and "\<bar>x\<bar> < 2 powi (- 1022)"
  shows "ulp_exponent x = - 1074"
proof -
  have "ilog2 x < - 1022"
  proof (rule powi_less_imp_less)
    from ilog2_bounds(1) [OF assms(1)] assms(2) show "(2::rat) powi (ilog2 x) < 2 powi (- 1022)"
      by linarith
  qed
  then show ?thesis by (simp add: ulp_exponent_def)
qed

lemma fl_subnormal:
  assumes "x \<noteq> 0" and "\<bar>x\<bar> < 2 powi (- 1022)"
  shows "fl x = of_int (round_ne (x * 2 ^ 1074)) / 2 ^ 1074"
proof -
  have q: "(2::rat) powi (- 1074) = 1 / 2 ^ 1074" by (simp add: power_int_minus field_simps)
  show ?thesis
    using assms(1) unfolding fl_def Let_def ulp_exponent_subnormal [OF assms] q by simp
qed

lemma round_ne_of_int [simp]: "round_ne (of_int m) = m"
  by (rule round_ne_nearest) simp

lemma fl_error_max: "\<bar>fl x - x\<bar> \<le> max \<bar>x\<bar> (2 powi (- 1022)) / 2 ^ 53"
proof (cases "2 powi (- 1022) \<le> \<bar>x\<bar>")
  case True
  then have "max \<bar>x\<bar> (2 powi (- 1022)) = \<bar>x\<bar>" by simp
  with fl_error_normal [OF True] show ?thesis by simp
next
  case False
  then have m: "max \<bar>x\<bar> (2 powi (- 1022)) = 2 powi (- 1022)" by simp
  show ?thesis
  proof (cases "x = 0")
    case True
    then show ?thesis by simp
  next
    case x0: False
    from False have "\<bar>x\<bar> < 2 powi (- 1022)" by simp
    from ulp_exponent_subnormal [OF x0 this] fl_error_ulp [OF x0]
    have "\<bar>fl x - x\<bar> \<le> 2 powi (- 1074) / 2" by simp
    also have "\<dots> = 2 powi (- 1022) / 2 ^ 53" by (simp add: power_int_minus field_simps)
    finally show ?thesis by (simp only: m)
  qed
qed

lemma roundtrip_bound:
  assumes "fl x = x" and "\<bar>x\<bar> * 1000000 \<le> DBL_MAX"
  shows "\<bar>fl (fl (x * 1000000) / 1000000) - x\<bar> \<le> \<bar>x\<bar> / 2 ^ 52 + \<bar>x\<bar> / 2 ^ 106"
proof -
  define z where "z = x * 1000000"
  define q where "q = fl z / 1000000"
  have az: "\<bar>z\<bar> = \<bar>x\<bar> * 1000000" by (simp add: z_def abs_mult)
  consider "x = 0" | "2 powi (- 1022) \<le> \<bar>x\<bar>" | "x \<noteq> 0" "\<bar>x\<bar> < 2 powi (- 1022)"
    by fastforce
  then have "\<bar>fl q - x\<bar> \<le> \<bar>x\<bar> / 2 ^ 52 + \<bar>x\<bar> / 2 ^ 106"
  proof cases
    case 1
    then show ?thesis by (simp add: q_def z_def)
  next
    case 2
    have "\<bar>x\<bar> \<le> \<bar>z\<bar>" by (simp add: az)
    with 2 have nz: "2 powi (- 1022) \<le> \<bar>z\<bar>" by linarith
    have e1: "\<bar>fl z - z\<bar> \<le> \<bar>z\<bar> / 2 ^ 53" using nz by (rule fl_error_normal)
    have "q - x = (fl z - z) / 1000000" by (simp add: q_def z_def diff_divide_distrib)
    then have "\<bar>q - x\<bar> = \<bar>fl z - z\<bar> / 1000000"
      by (simp only: abs_divide abs_numeral)
    also have "\<dots> \<le> \<bar>z\<bar> / 2 ^ 53 / 1000000" using e1 by (rule divide_right_mono) simp
    also have "\<dots> = \<bar>x\<bar> / 2 ^ 53" by (simp add: az)
    finally have d1: "\<bar>q - x\<bar> \<le> \<bar>x\<bar> / 2 ^ 53" .
    then have aq: "\<bar>q\<bar> \<le> \<bar>x\<bar> + \<bar>x\<bar> / 2 ^ 53" by linarith
    have "max \<bar>q\<bar> (2 powi (- 1022)) \<le> \<bar>x\<bar> + \<bar>x\<bar> / 2 ^ 53"
      using aq 2 by simp
    then have "max \<bar>q\<bar> (2 powi (- 1022)) / 2 ^ 53 \<le> (\<bar>x\<bar> + \<bar>x\<bar> / 2 ^ 53) / 2 ^ 53"
      by (rule divide_right_mono) simp
    with fl_error_max [of q] have d2: "\<bar>fl q - q\<bar> \<le> (\<bar>x\<bar> + \<bar>x\<bar> / 2 ^ 53) / 2 ^ 53"
      by linarith
    have "\<bar>fl q - x\<bar> \<le> \<bar>fl q - q\<bar> + \<bar>q - x\<bar>" by linarith
    also have "\<dots> \<le> (\<bar>x\<bar> + \<bar>x\<bar> / 2 ^ 53) / 2 ^ 53 + \<bar>x\<bar> / 2 ^ 53" using d1 d2 by linarith
    also have "\<dots> = \<bar>x\<bar> / 2 ^ 52 + \<bar>x\<bar> / 2 ^ 106" by (simp add: field_simps)
    finally show ?thesis .
  next
    case 3
    define B :: rat where "B = 2 ^ 1074"
    define k where "k = round_ne (x * B)"
    have Bpos: "0 < B" by (simp add: B_def)
    have B52: "B = 2 ^ 52 * 2 ^ 1022" by (simp add: B_def)
    have p: "(2::rat) powi (- 1022) = 1 / 2 ^ 1022" by (simp add: power_int_minus field_simps)
    have sub: "fl v = of_int (round_ne (v * B)) / B" if "v \<noteq> 0" "\<bar>v\<bar> * B < 2 ^ 52" for v
    proof -
      have "\<bar>v\<bar> * (2 ^ 52 * 2 ^ 1022) < 2 ^ 52" using that(2) by (simp only: B52)
      then have "\<bar>v\<bar> * 2 ^ 1022 < 1" by simp
      then have "\<bar>v\<bar> < 1 / 2 ^ 1022" by (simp add: field_simps)
      then have "\<bar>v\<bar> < 2 powi (- 1022)" by (simp only: p)
      from fl_subnormal [OF that(1) this] show ?thesis by (simp only: B_def)
    qed
    have xB: "\<bar>x\<bar> * B < 2 ^ 52"
    proof -
      from 3(2) have "\<bar>x\<bar> < 1 / 2 ^ 1022" by (simp only: p)
      then have "\<bar>x\<bar> * 2 ^ 1022 < 1" by (simp add: field_simps)
      then have "\<bar>x\<bar> * 2 ^ 1022 * 2 ^ 52 < 1 * 2 ^ 52" by (rule mult_strict_right_mono) simp
      then show ?thesis by (simp add: B52 mult.commute mult.left_commute)
    qed
    have "x = of_int k / B" using sub [OF 3(1) xB] assms(1) by (simp add: k_def)
    then have xk: "x * B = of_int k" using Bpos by simp
    have "(of_int \<bar>k\<bar> :: rat) = \<bar>x\<bar> * B" using Bpos by (simp add: xk [symmetric] abs_mult)
    with xB have "(of_int \<bar>k\<bar> :: rat) < of_int (2 ^ 52)" by simp
    then have "\<bar>k\<bar> \<le> 2 ^ 52 - 1" by (simp only: of_int_less_iff)
    then have "(of_int \<bar>k\<bar> :: rat) \<le> of_int (2 ^ 52 - 1)" by (simp only: of_int_le_iff)
    then have kb: "\<bar>x\<bar> * B \<le> 2 ^ 52 - 1"
      using Bpos by (simp add: xk [symmetric] abs_mult)
    have "fl q = x"
    proof (cases "\<bar>z\<bar> * B < 2 ^ 52")
      case True
      have z0: "z \<noteq> 0" using 3(1) by (simp add: z_def)
      have "z * B = of_int (k * 1000000)" using xk by (simp add: z_def algebra_simps)
      then have "fl z = of_int (k * 1000000) / B"
        using sub [OF z0 True] by (simp only: round_ne_of_int)
      also have "\<dots> = z" using xk Bpos by (simp add: z_def field_simps)
      finally have "q = x" by (simp add: q_def z_def)
      with assms(1) show ?thesis by simp
    next
      case False
      have nz: "2 powi (- 1022) \<le> \<bar>z\<bar>"
      proof -
        from False have "2 ^ 52 \<le> \<bar>z\<bar> * (2 ^ 52 * 2 ^ 1022)" by (simp add: B52)
        then have "1 \<le> \<bar>z\<bar> * 2 ^ 1022" by simp
        then show ?thesis by (simp add: p field_simps)
      qed
      have e1: "\<bar>fl z - z\<bar> \<le> \<bar>z\<bar> / 2 ^ 53" using nz by (rule fl_error_normal)
      have "q - x = (fl z - z) / 1000000" by (simp add: q_def z_def diff_divide_distrib)
      then have "\<bar>q - x\<bar> = \<bar>fl z - z\<bar> / 1000000"
        by (simp only: abs_divide abs_numeral)
      also have "\<dots> \<le> \<bar>z\<bar> / 2 ^ 53 / 1000000" using e1 by (rule divide_right_mono) simp
      also have "\<dots> = \<bar>x\<bar> / 2 ^ 53" by (simp add: az)
      finally have d1: "\<bar>q - x\<bar> \<le> \<bar>x\<bar> / 2 ^ 53" .
      have q0: "q \<noteq> 0"
      proof
        assume "q = 0"
        with d1 have "\<bar>x\<bar> \<le> \<bar>x\<bar> / 2 ^ 53" by simp
        then have "\<bar>x\<bar> * (1 - 1 / 2 ^ 53) \<le> 0" by (simp add: algebra_simps)
        then have "\<bar>x\<bar> \<le> 0" by (simp add: mult_le_0_iff)
        with 3(1) show False by simp
      qed
      have d1B: "\<bar>q - x\<bar> * B \<le> (2 ^ 52 - 1) / 2 ^ 53"
      proof -
        have "\<bar>q - x\<bar> * B \<le> \<bar>x\<bar> / 2 ^ 53 * B"
          using d1 Bpos by (intro mult_right_mono) simp_all
        also have "\<dots> = \<bar>x\<bar> * B / 2 ^ 53" by simp
        also have "\<dots> \<le> (2 ^ 52 - 1) / 2 ^ 53" using kb by (rule divide_right_mono) simp
        finally show ?thesis .
      qed
      have "\<bar>q\<bar> \<le> \<bar>x\<bar> + \<bar>q - x\<bar>" by linarith
      then have "\<bar>q\<bar> * B \<le> (\<bar>x\<bar> + \<bar>q - x\<bar>) * B"
        using Bpos by (intro mult_right_mono) simp_all
      also have "\<dots> = \<bar>x\<bar> * B + \<bar>q - x\<bar> * B" by (simp only: distrib_right)
      also have "\<dots> \<le> (2 ^ 52 - 1) + (2 ^ 52 - 1) / 2 ^ 53" using kb d1B by (rule add_mono)
      also have "\<dots> < (2::rat) ^ 52" by simp
      finally have qs: "\<bar>q\<bar> * B < 2 ^ 52" .
      have "q * B - of_int k = (q - x) * B" by (simp only: xk [symmetric] left_diff_distrib)
      then have "\<bar>q * B - of_int k\<bar> = \<bar>q - x\<bar> * B"
        using Bpos by (simp add: abs_mult)
      also note d1B
      also have "(2 ^ 52 - 1) / 2 ^ 53 < (1 / 2 :: rat)" by simp
      finally have "round_ne (q * B) = k" by (rule round_ne_nearest)
      with sub [OF q0 qs] have "fl q = of_int k / B" by simp
      also have "\<dots> = x" using xk Bpos by (simp add: field_simps)
      finally show ?thesis .
    qed
    then show ?thesis by simp
  qed
  then show ?thesis by (simp only: q_def z_def)
qed

lemma roundtrip:
  assumes "fl x = x" and "\<bar>x\<bar> * 1000000 \<le> DBL_MAX"
  shows "\<exists>ctx' y. rtl_set_fm (Some ctx) (Finite x) = Inr ctx'
     \<and> rtl_get_fm (Some ctx') = Inr (Finite y)
     \<and> \<bar>y - x\<bar> \<le> \<bar>x\<bar> / 2 ^ 52 + \<bar>x\<bar> / 2 ^ 106"
proof -
  define z where "z = x * 1000000"
  have az: "\<bar>z\<bar> \<le> DBL_MAX" using assms(2) by (simp add: z_def abs_mult)
  have t1: "to_double z = Finite (fl z)" using az by (rule to_double_in_range)
  have "\<bar>fl z / 1000000\<bar> = \<bar>fl z\<bar> / 1000000" by simp
  also have "\<dots> \<le> \<bar>fl z\<bar>" by (simp add: field_simps)
  also have "\<dots> \<le> DBL_MAX" using az by (rule fl_le_DBL_MAX)
  finally have t2: "to_double (fl z / 1000000) = Finite (fl (fl z / 1000000))"
    by (rule to_double_in_range)
  have s: "rtl_set_fm (Some ctx) (Finite x) = Inr (ctx\<lparr>center_freq := Finite (fl z)\<rparr>)"
    by (simp add: rtl_set_fm_def mega t1 [unfolded z_def] z_def)
  have g: "rtl_get_fm (Some (ctx\<lparr>center_freq := Finite (fl z)\<rparr>))
      = Inr (Finite (fl (fl z / 1000000)))"
    by (simp add: rtl_get_fm_def mega t2)
  from roundtrip_bound [OF assms] s g show ?thesis unfolding z_def by blast
qed

lemma roundtrip_overflow:
  "\<exists>x ctx'. to_double (10 ^ 303) = Finite x
     \<and> rtl_set_fm (Some sample_ctx) (to_double (10 ^ 303)) = Inr ctx'
     \<and> center_freq ctx' = Pos_inf \<and> rtl_get_fm (Some ctx') = Inr Pos_inf"
proof -
  define x :: rat where "x = fl (10 ^ 303)"
  have "(10::rat) ^ 303 \<le> 2 ^ 1023" by simp
  with DBL_MAX_ge have "\<bar>(10::rat) ^ 303\<bar> \<le> DBL_MAX" by simp
  then have t: "to_double (10 ^ 303) = Finite x" unfolding x_def by (rule to_double_in_range)
  have n: "(2::rat) powi (- 1022) \<le> \<bar>10 ^ 303\<bar>"
  proof -
    have "(2::rat) powi (- 1022) \<le> 2 powi 0" by (intro power_int_increasing) simp_all
    then show ?thesis by simp
  qed
  from fl_error_normal [OF n] have "10 ^ 303 - 10 ^ 303 / 2 ^ 53 \<le> x"
    unfolding x_def by simp
  then have "(10 ^ 303 - 10 ^ 303 / 2 ^ 53) * 1000000 \<le> x * 1000000"
    by (rule mult_right_mono) simp
  moreover have "(2::rat) ^ 1025 \<le> (10 ^ 303 - 10 ^ 303 / 2 ^ 53) * 1000000" by simp
  ultimately have "2 ^ 1025 \<le> x * 1000000" by linarith
  then have o: "to_double (x * 1000000) = Pos_inf" by (rule to_double_overflow)
  have s: "rtl_set_fm (Some sample_ctx) (to_double (10 ^ 303))
      = Inr (sample_ctx\<lparr>center_freq := Pos_inf\<rparr>)"
    unfolding rtl_set_fm_def t by (simp add: mega o)
  have g: "rtl_get_fm (Some (sample_ctx\<lparr>center_freq := Pos_inf\<rparr>)) = Inr Pos_inf"
    by (simp add: rtl_get_fm_def mega inf_of_sign_def)
  from t s g show ?thesis by simp
qed


section \<open>Single windows and the rule of a whole scan\<close>

lemma scan_step_no_division_by_zero:
  "scan_step tuner freq st w \<noteq> Some (Inl Division_by_zero)"
proof (cases tuner)
  case None
  then show ?thesis by (simp add: scan_step_def rtl_set_fm_def)
next
  case (Some ctx)
  show ?thesis
  proof (cases "measure_window (sleep_for SWITCH_DELAY_MS w)")
    case None
    with Some show ?thesis by (simp add: scan_step_def rtl_set_fm_def)
  next
    case m: (Some a)
    obtain sm n w2 where a: "a = ((sm, n), w2)" by (cases a) auto
    show ?thesis
    proof (cases "0 < n")
      case True
      with Some m a show ?thesis
        using fdiv_by_count [OF True, of sm]
        by (cases st) (auto simp: scan_step_def rtl_set_fm_def split: if_splits)
    next
      case False
      with Some m a show ?thesis by (simp add: scan_step_def rtl_set_fm_def)
    qed
  qed
qed

lemma window_with_first_sample:
  assumes "clock w = s # t # rest" and "elapsed_ms s t < MEASURE_MS"
    and "measure_window w = Some ((sm, n), w')"
  shows "level_calls w < level_calls w'
     \<and> n = of_nat (level_calls w' - level_calls w)
     \<and> (level_calls w' - level_calls w < 2 ^ 32 \<longrightarrow> 0 < n)"
proof -
  from measure_window_split [OF assms(3)]
  obtain win where c: "clock w = window_clock win @ clock w'" and ok: "window_ok win"
    by blast
  obtain s' ts e where win: "win = (s', ts, e)" by (cases win)
  from c assms(1) have s: "s' = s" and tl: "ts @ e # clock w' = t # rest"
    by (simp_all add: win window_clock_def)
  have ne: "ts \<noteq> []"
  proof
    assume "ts = []"
    with tl have "e = t" by simp
    with ok assms(2) s show False by (simp add: win window_ok_def)
  qed
  have sz: "0 < window_size win" using ne by (simp add: win window_size_def)
  from measure_window_window [OF c ok] assms(3)
  have n: "n = of_nat (window_size win)"
    and w': "w' = w\<lparr>clock := clock w', level_calls := level_calls w + window_size win\<rparr>"
    by simp_all
  have "level_calls w'
      = level_calls (w\<lparr>clock := clock w', level_calls := level_calls w + window_size win\<rparr>)"
    using w' by (rule arg_cong)
  then have l: "level_calls w' = level_calls w + window_size win" by simp
  have d: "level_calls w' - level_calls w = window_size win" using l by simp
  have "0 < n" if "window_size win < 2 ^ 32"
    using count_of_length(2) [OF that] sz by (simp add: n)
  with sz n l show ?thesis by (simp add: d)
qed

lemma window_expired_at_entry:
  assumes "clock w = s # t # rest" and "\<not> elapsed_ms s t < MEASURE_MS"
  shows "measure_window w = Some ((Finite 0, 0), w\<lparr>clock := rest\<rparr>)"
proof -
  have n: "now w = Some (s, w\<lparr>clock := t # rest\<rparr>)"
    using assms(1) by (simp add: now_def)
  have "measure_loop s (Finite 0, 0) (w\<lparr>clock := t # rest\<rparr>)
      = Some ((Finite 0, 0), w\<lparr>clock := t # rest\<rparr>\<lparr>clock := rest\<rparr>)"
    using assms(2) by (subst measure_loop_Cons [where t = t and ts = rest]) simp_all
  then show ?thesis by (simp add: measure_window_def n)
qed

lemma scan_step_expired_at_entry:
  assumes "clock w = s # t # rest" and "\<not> elapsed_ms s t < MEASURE_MS"
  shows "scan_step (Some ctx) freq st w =
     Some (Inr (ctx\<lparr>center_freq := fmul freq (to_double 1000000)\<rparr>, st,
       (sleep_for SWITCH_DELAY_MS w)\<lparr>clock := rest\<rparr>))"
proof -
  have c: "clock (sleep_for SWITCH_DELAY_MS w) = s # t # rest"
    using assms(1) by (simp add: sleep_for_def)
  from window_expired_at_entry [OF c assms(2)]
  show ?thesis by (simp add: scan_step_def rtl_set_fm_def)
qed

lemma paced_clock_head:
  "clock (paced_world c sizes) =
     word_of_int (int 0 * 1200000000)
       # map (\<lambda>j. word_of_int (int 0 * 1200000000 + int j * 1000000)) [1..<Suc (sizes 0)]
       @ word_of_int (int 0 * 1200000000 + 200000000)
       # concat (map window_clock (map (\<lambda>i. paced_window (sizes i) i) [1..<100]))"
proof -
  have u: "[0..<100] = 0 # [1..<100]" using upt_conv_Cons [of 0 100] by simp
  show ?thesis
    unfolding paced_world_def paced_windows_def u
    by (simp add: window_clock_def paced_window_def)
qed

lemma scan_by_rule:
  assumes "length wins = 100" and "list_all window_ok wins"
    and "clock w = concat (map window_clock wins) @ rest"
    and "length (station_list ctx) = MAX_FM_STATIONS"
  shows "\<exists>ctx' w'. scan_fm_stations (Some ctx) w = Some (Inr (ctx', w'))
     \<and> stations_found ctx' = stations_by step_records (level w) 0 (level_calls w) wins
     \<and> (\<forall>k<100.
          (sweep_freq k \<in> set (stations_found ctx')) =
          step_records (window_samples (level w)
            (level_calls w + sum_list (map window_size (take k wins))) (wins ! k)))"
proof -
  define ds where "ds = stations_by step_records (level w) 0 (level_calls w) wins"
  from scan_result [OF assms ds_def]
  obtain found w' where
    r: "scan_fm_stations (Some ctx) w =
       Some (Inr (ctx\<lparr>center_freq := fmul (sweep_freq 99) (to_double 1000000),
                      station_list := ds @ drop (length ds) (station_list ctx),
                      station_list_len := found\<rparr>, w'))"
    and u: "unat found = length ds"
    by blast
  have f: "stations_found (ctx\<lparr>center_freq := fmul (sweep_freq 99) (to_double 1000000),
                      station_list := ds @ drop (length ds) (station_list ctx),
                      station_list_len := found\<rparr>) = ds"
    using u by (rule stations_found_update)
  have "(sweep_freq k \<in> set ds) =
      step_records (window_samples (level w)
        (level_calls w + sum_list (map window_size (take k wins))) (wins ! k))"
    if "k < 100" for k
    using stations_by_mem [of 0 wins k step_records "level w" "level_calls w"] that assms(1)
    by (simp add: ds_def del: sweep_freq.simps)
  with r f show ?thesis unfolding ds_def [symmetric] by (auto simp del: sweep_freq.simps)
qed


section \<open>The claims\<close>

text \<open>
  \<^bold>\<open>C1.\<close> A full band scan behind \<open>rtl_get_fm_stations\<close> never records more than
  \<open>MAX_FM_STATIONS\<close> stations, and the count it returns is the number of entries copied
  into the caller's buffer: the buffer afterwards holds the first \<open>n\<close> entries of the
  station list followed by what it held before. This is for a context whose station array
  has its \<open>MAX_FM_STATIONS\<close> slots and a buffer of at least that size. No store of the
  sweep overflows the local array, because the loop runs 100 times: the 101st value of
  \<open>freq\<close> is above the double \<open>107.9\<close>.
\<close>

theorem station_count_bounded:
  assumes "rtl_get_fm_stations (Some ctx) stations_out w = Some r"
    and "length (station_list ctx) = MAX_FM_STATIONS"
    and "MAX_FM_STATIONS \<le> length stations_out"
  shows "\<exists>n buf ctx' w'. r = Inr (n, buf, ctx', w') \<and> unat n \<le> MAX_FM_STATIONS
     \<and> station_list_len ctx' = n
     \<and> buf = take (unat n) (station_list ctx') @ drop (unat n) stations_out"
proof -
  from get_stations_complete [OF assms(1)]
  obtain wins rest where c: "clock w = concat (map window_clock wins) @ rest"
    and ok: "list_all window_ok wins" and len: "length wins = 100"
    by blast
  define ds where "ds = stations_by step_records (level w) 0 (level_calls w) wins"
  from get_stations_result [OF len ok c assms(2,3) ds_def]
  obtain found w' where
    r: "rtl_get_fm_stations (Some ctx) stations_out w =
       Some (Inr (found, ds @ drop (length ds) stations_out,
         ctx\<lparr>center_freq := fmul (sweep_freq 99) (to_double 1000000),
              station_list := ds @ drop (length ds) (station_list ctx),
              station_list_len := found\<rparr>, w'))"
    and u: "unat found = length ds" and l: "length ds \<le> MAX_FM_STATIONS"
    by blast
  from r assms(1) u l show ?thesis by auto
qed

theorem station_count_bounded_witness:
  "\<exists>n buf ctx' w'.
     rtl_get_fm_stations (Some sample_ctx) zero_buffer (paced_world (Finite 1) (\<lambda>i. 3)) =
       Some (Inr (n, buf, ctx', w'))
     \<and> unat n \<le> MAX_FM_STATIONS \<and> station_list_len ctx' = n
     \<and> buf = take (unat n) (station_list ctx') @ drop (unat n) zero_buffer"
proof -
  from paced_get_stations [OF _ length_sample_stations length_zero_buffer refl,
      of "\<lambda>i. 3" "Finite 1"]
  obtain r where
    r: "rtl_get_fm_stations (Some sample_ctx) zero_buffer (paced_world (Finite 1) (\<lambda>i. 3))
      = Some r"
    by auto
  from station_count_bounded [OF r length_sample_stations length_zero_buffer] r
  show ?thesis by simp
qed

text \<open>
  \<^bold>\<open>C2.\<close> What each control function does with a null context. \<open>rtl_start_fm\<close>,
  \<open>rtl_stop_fm\<close> and \<open>rtl_destroy_tuner\<close> test the pointer, print an error and return.
  \<open>rtl_set_fm\<close>, \<open>rtl_get_fm\<close> and \<open>rtl_get_fm_stations\<close> have no such test and
  dereference it.
\<close>

theorem null_tuner_dereferenced:
  "rtl_set_fm None freq = Inl Null_dereference
   \<and> rtl_get_fm None = Inl Null_dereference
   \<and> rtl_get_fm_stations None stations_out w = Some (Inl Null_dereference)
   \<and> rtl_start_fm None w =
       Returned None (printf (Error_message ''Error: rtl_start_fm - no tuner specified'') w)
   \<and> rtl_stop_fm None w =
       Returned None (printf (Error_message ''Error: rtl_stop_fm - no tuner specified'') w)
   \<and> rtl_destroy_tuner None w =
       Returned None (printf (Error_message ''Error: rtl_destroy_tuner - null pointer'') w)"
proof -
  have "BAND_START \<le> BAND_END" using sweep_freq_in_band [of 0] by simp
  then have "sweep BAND_START None st v = Some (Inl Null_dereference)" for st v
    by (subst sweep.simps) (simp add: scan_step_def rtl_set_fm_def)
  then show ?thesis
    by (simp add: rtl_set_fm_def rtl_get_fm_def rtl_get_fm_stations_def scan_fm_stations_def
        rtl_start_fm_def rtl_stop_fm_def rtl_destroy_tuner_def)
qed

text \<open>
  \<^bold>\<open>C3.\<close> A constant reading above the threshold does not by itself put every candidate
  in the list. A window in which the first loop test already finds 200 ms elapsed takes no
  sample and its frequency is skipped: in the scan of \<open>strong_signal_first_window_stalled\<close>
  the first window is stalled, and 87.9 MHz is missing from the result. And a constant
  within rounding distance of the threshold can have a computed mean that is not above it
  (\<open>over_not_recorded\<close>).

  What holds: if every reading is one constant of at least \<open>0.0002000001\<close>, and each of
  the 100 windows takes at least one and fewer than \<open>2^32\<close> samples, the scan finishes
  and every candidate frequency below the end of the band is in its result, in ascending
  order: the recorded entries below \<open>BAND_END\<close> are exactly the 100 sweep frequencies
  from 87.9 MHz on, and the recorded list is strictly ascending. The statement is silent
  about the end of the band itself.
\<close>

theorem strong_signal_fills_list:
  assumes "length wins = 100" and "list_all window_ok wins"
    and "\<forall>win\<in>set wins. 0 < window_size win \<and> window_size win < 2 ^ 32"
    and "clock w = concat (map window_clock wins) @ rest"
    and "\<forall>i. level w i = c" and "Finite (2000001 / 10 ^ 10) \<le> c"
    and "length (station_list ctx) = MAX_FM_STATIONS"
  shows "\<exists>ctx' w'. scan_fm_stations (Some ctx) w = Some (Inr (ctx', w'))
     \<and> filter (\<lambda>f. f < BAND_END) (stations_found ctx') = map sweep_freq [0..<100]
     \<and> sorted_wrt (<) (stations_found ctx')"
proof -
  from scan_strong_signal [OF assms]
  obtain ctx' w' where r: "scan_fm_stations (Some ctx) w = Some (Inr (ctx', w'))"
    and f: "stations_found ctx' = map sweep_freq [0..<100]"
    by blast
  from r sweep_freqs_below_end sorted_sweep_freqs show ?thesis
    unfolding f [symmetric] by blast
qed

theorem strong_signal_fills_list_witness:
  "\<exists>ctx' w'. scan_fm_stations (Some sample_ctx) (paced_world (Finite 1) (\<lambda>i. 3))
       = Some (Inr (ctx', w'))
     \<and> filter (\<lambda>f. f < BAND_END) (stations_found ctx') = map sweep_freq [0..<100]
     \<and> sorted_wrt (<) (stations_found ctx')"
proof (rule strong_signal_fills_list)
  show "length (paced_windows (\<lambda>i. 3)) = 100" by simp
  show "list_all window_ok (paced_windows (\<lambda>i. 3))" by (rule paced_windows_ok) simp
  show "\<forall>win\<in>set (paced_windows (\<lambda>i. 3)). 0 < window_size win \<and> window_size win < 2 ^ 32"
    by (auto dest: paced_window_size)
  show "clock (paced_world (Finite 1) (\<lambda>i. 3))
      = concat (map window_clock (paced_windows (\<lambda>i. 3))) @ []"
    by (rule clock_paced_world)
  show "\<forall>i. level (paced_world (Finite 1) (\<lambda>i. 3)) i = Finite 1" by (simp add: paced_world_def)
  show "Finite (2000001 / 10 ^ 10) \<le> Finite 1" by simp
  show "length (station_list sample_ctx) = MAX_FM_STATIONS" by (rule length_sample_stations)
qed

theorem strong_signal_first_window_stalled:
  "\<exists>ctx' w'. scan_fm_stations (Some sample_ctx) (paced_world (Finite 1) first_stalled) =
       Some (Inr (ctx', w'))
     \<and> POWER_THRESHOLD < Finite 1 \<and> station_list_len ctx' = 99
     \<and> stations_found ctx' = map sweep_freq [1..<100]
     \<and> BAND_START \<notin> set (stations_found ctx')"
proof -
  define ds where
    "ds = stations_by step_records (\<lambda>k. Finite 1) 0 0 (paced_windows first_stalled)"
  have ds: "ds = map sweep_freq [1..<100]"
    unfolding ds_def by (rule first_stalled_stations) simp
  then have len: "length ds = 99" by simp
  from paced_scan [OF first_stalled_sizes length_sample_stations ds_def]
  obtain found w' where
    r: "scan_fm_stations (Some sample_ctx) (paced_world (Finite 1) first_stalled) =
       Some (Inr (sample_ctx\<lparr>center_freq := fmul (sweep_freq 99) (to_double 1000000),
                      station_list := ds @ drop (length ds) (station_list sample_ctx),
                      station_list_len := found\<rparr>, w'))"
    and u: "unat found = length ds"
    by blast
  have f: "found = 99" using word_of_unat [OF u] len by simp
  have t: "stations_found (sample_ctx\<lparr>center_freq := fmul (sweep_freq 99) (to_double 1000000),
                      station_list := ds @ drop (length ds) (station_list sample_ctx),
                      station_list_len := found\<rparr>) = map sweep_freq [1..<100]"
    using stations_found_update [OF u] ds by simp
  have n: "BAND_START \<notin> set (map sweep_freq [1..<100])"
  proof
    assume "BAND_START \<in> set (map sweep_freq [1..<100])"
    then obtain k where k: "1 \<le> k" "k < 100" and e: "sweep_freq k = sweep_freq 0" by auto
    from sweep_freq_inj [OF _ _ e] k show False by simp
  qed
  have "POWER_THRESHOLD < Finite 1" by (simp add: POWER_THRESHOLD_eq)
  with r f t n show ?thesis by simp
qed

text \<open>
  \<^bold>\<open>C4.\<close> A scan in which every frequency is detected (constant level 1, three samples
  in each window). The list is the 100 values that \<open>freq\<close> takes: it starts at the double
  87.9 and ends at 107.70000000000029. The next value, 107.90000000000029, is above the
  double 107.9 of the loop bound, so 107.9 MHz is never measured and is not in the list.
\<close>

theorem band_end_not_reached:
  "\<exists>ctx' w'. scan_fm_stations (Some sample_ctx) (paced_world (Finite 1) (\<lambda>i. 3))
       = Some (Inr (ctx', w'))
     \<and> station_list ctx' = map sweep_freq [0..<100]
     \<and> sweep_freq 0 = BAND_START
     \<and> sweep_freq 99 = Finite (7578713747934433 / 2 ^ 46)
     \<and> sweep_freq 100 = Finite (7592787496769966 / 2 ^ 46)
     \<and> BAND_END = Finite (7592787496769946 / 2 ^ 46)
     \<and> BAND_END \<notin> set (station_list ctx')"
proof -
  from scan_constant_strong [of "Finite 1"]
  obtain ctx' w' where
    r: "scan_fm_stations (Some sample_ctx) (paced_world (Finite 1) (\<lambda>i. 3))
      = Some (Inr (ctx', w'))"
    and l: "station_list ctx' = map sweep_freq [0..<100]"
    by auto
  have "BAND_END \<notin> set (map sweep_freq [0..<100])"
  proof
    assume "BAND_END \<in> set (map sweep_freq [0..<100])"
    then obtain k where k: "k < 100" and e: "sweep_freq k = BAND_END" by auto
    from sweep_freq_below_end [OF k] show False
      unfolding e by (simp add: BAND_END_eq)
  qed
  moreover have "sweep_freq 100 = Finite (7592787496769966 / 2 ^ 46)"
    using sweep_freq_eq [of 100] by simp
  moreover have "sweep_freq 0 = BAND_START" by simp
  moreover note r sweep_freq_99 BAND_END_eq
  ultimately show ?thesis unfolding l [symmetric] by blast
qed

text \<open>
  \<^bold>\<open>C5.\<close> The mean that decides is not the arithmetic mean of the samples but the mean
  as the loop computes it: the running sum, rounded at every addition, divided by the
  32-bit count. Three readings of the smallest double above \<open>0.0002\<close> have an arithmetic
  mean above the threshold and a computed mean equal to it, and the scan of
  \<open>mean_above_threshold_not_recorded\<close> records nothing.

  What holds, for a context whose station array has its \<open>MAX_FM_STATIONS\<close> slots:
  \<^item> a scan whose clock shows 100 measurement windows returns, and it has recorded the
    \<open>k\<close>-th sweep frequency if and only if the count of its window is not zero and the
    computed mean is above \<open>POWER_THRESHOLD\<close> (\<open>step_records\<close>); the recorded entries
    are exactly these frequencies, in sweep order;
  \<^item> every scan that returns has such a clock;
  \<^item> for fewer than \<open>2^32\<close> non-negative finite samples the rule agrees with the
    arithmetic mean outside a band of rounding around the threshold: a mean of at least
    \<open>0.0002000001\<close> is recorded, a mean of at most \<open>0.0001999999\<close> is not;
  \<^item> a window without samples is not recorded.
\<close>

theorem station_recorded_iff_computed_mean_exceeds:
  assumes "length (station_list ctx) = MAX_FM_STATIONS"
  shows "(\<forall>wins rest.
        clock w = concat (map window_clock wins) @ rest \<and> length wins = 100
          \<and> list_all window_ok wins \<longrightarrow>
        (\<exists>ctx' w'. scan_fm_stations (Some ctx) w = Some (Inr (ctx', w'))
           \<and> stations_found ctx' = stations_by step_records (level w) 0 (level_calls w) wins
           \<and> (\<forall>k<100.
                (sweep_freq k \<in> set (stations_found ctx')) =
                step_records (window_samples (level w)
                  (level_calls w + sum_list (map window_size (take k wins))) (wins ! k)))))
     \<and> (\<forall>r. scan_fm_stations (Some ctx) w = Some r \<longrightarrow>
          (\<exists>wins rest. clock w = concat (map window_clock wins) @ rest \<and> length wins = 100
             \<and> list_all window_ok wins))
     \<and> (\<forall>rs. (\<forall>r\<in>set rs. 0 \<le> r) \<and> rs \<noteq> [] \<and> length rs < 2 ^ 32 \<longrightarrow>
          (2000001 / 10 ^ 10 \<le> arithmetic_mean rs \<longrightarrow> step_records (map Finite rs))
          \<and> (arithmetic_mean rs \<le> 1999999 / 10 ^ 10 \<longrightarrow> \<not> step_records (map Finite rs)))
     \<and> \<not> step_records []"
proof -
  have 1: "\<exists>ctx' w'. scan_fm_stations (Some ctx) w = Some (Inr (ctx', w'))
       \<and> stations_found ctx' = stations_by step_records (level w) 0 (level_calls w) wins
       \<and> (\<forall>k<100.
            (sweep_freq k \<in> set (stations_found ctx')) =
            step_records (window_samples (level w)
              (level_calls w + sum_list (map window_size (take k wins))) (wins ! k)))"
    if "clock w = concat (map window_clock wins) @ rest \<and> length wins = 100
      \<and> list_all window_ok wins" for wins rest
    using that assms by (intro scan_by_rule) simp_all
  have 2: "\<exists>wins rest. clock w = concat (map window_clock wins) @ rest \<and> length wins = 100
      \<and> list_all window_ok wins" if "scan_fm_stations (Some ctx) w = Some r" for r
    using scan_complete [OF that] by blast
  have 3: "(2000001 / 10 ^ 10 \<le> arithmetic_mean rs \<longrightarrow> step_records (map Finite rs))
      \<and> (arithmetic_mean rs \<le> 1999999 / 10 ^ 10 \<longrightarrow> \<not> step_records (map Finite rs))"
    if "(\<forall>r\<in>set rs. 0 \<le> r) \<and> rs \<noteq> [] \<and> length rs < 2 ^ 32" for rs
    using that mean_above_recorded [of rs] mean_below_not_recorded [of rs] by blast
  have 4: "\<not> step_records []" by (simp add: step_records_def)
  from 1 2 3 4 show ?thesis by blast
qed

theorem station_recorded_iff_computed_mean_exceeds_witness:
  "\<exists>ctx' w'.
     scan_fm_stations (Some sample_ctx) (paced_world (Finite 1) first_stalled)
       = Some (Inr (ctx', w'))
     \<and> stations_found ctx' = map sweep_freq [1..<100]
     \<and> step_records (map Finite [1, 1, 1])
     \<and> \<not> step_records (map Finite [1 / 10000, 1 / 10000])"
proof -
  let ?w = "paced_world (Finite 1) first_stalled"
  note t = station_recorded_iff_computed_mean_exceeds [OF length_sample_stations, of ?w]
  have c: "clock ?w = concat (map window_clock (paced_windows first_stalled)) @ []"
    by (rule clock_paced_world)
  have ok: "list_all window_ok (paced_windows first_stalled)"
    by (rule paced_windows_ok) (rule first_stalled_sizes)
  from t c ok length_paced_windows
  obtain ctx' w' where r: "scan_fm_stations (Some sample_ctx) ?w = Some (Inr (ctx', w'))"
    and f: "stations_found ctx'
      = stations_by step_records (level ?w) 0 (level_calls ?w) (paced_windows first_stalled)"
    by blast
  have "stations_by step_records (level ?w) 0 (level_calls ?w) (paced_windows first_stalled)
      = stations_by step_records (\<lambda>k. Finite 1) 0 0 (paced_windows first_stalled)"
    by (simp add: paced_world_def)
  also have "\<dots> = map sweep_freq [1..<100]" by (rule first_stalled_stations) simp
  finally have f': "stations_found ctx' = map sweep_freq [1..<100]" using f by simp
  have a: "2000001 / 10 ^ 10 \<le> arithmetic_mean [1, 1, 1]"
    by (simp add: arithmetic_mean_def)
  have b: "arithmetic_mean [1 / 10000, 1 / 10000] \<le> 1999999 / 10 ^ 10"
    by (simp add: arithmetic_mean_def)
  note t3 = t [THEN conjunct2, THEN conjunct2, THEN conjunct1, rule_format]
  have ha: "(\<forall>r\<in>set [1, 1, 1 :: rat]. 0 \<le> r) \<and> [1, 1, 1 :: rat] \<noteq> []
      \<and> length [1, 1, 1 :: rat] < 2 ^ 32"
    by simp
  have hb: "(\<forall>r\<in>set [1 / 10000, 1 / 10000 :: rat]. 0 \<le> r)
      \<and> [1 / 10000, 1 / 10000 :: rat] \<noteq> [] \<and> length [1 / 10000, 1 / 10000 :: rat] < 2 ^ 32"
    by simp
  from t3 [OF ha] a have 1: "step_records (map Finite [1, 1, 1])" by blast
  from t3 [OF hb] b have 2: "\<not> step_records (map Finite [1 / 10000, 1 / 10000])" by blast
  from r f' 1 2 show ?thesis by blast
qed

theorem mean_above_threshold_not_recorded:
  "\<exists>ctx' w'.
     scan_fm_stations (Some sample_ctx) (paced_world (Finite over_level) (\<lambda>i. 3))
       = Some (Inr (ctx', w'))
     \<and> stations_found ctx' = [] \<and> station_list_len ctx' = 0
     \<and> is_double over_level
     \<and> mean_exceeds_threshold (replicate 3 over_level)
     \<and> POWER_THRESHOLD < Finite over_level"
proof -
  define ds where
    "ds = stations_by step_records (\<lambda>k. Finite over_level) 0 0 (paced_windows (\<lambda>i. 3))"
  have "\<not> step_records (window_samples (\<lambda>k. Finite over_level) i win)"
    if "win \<in> set (paced_windows (\<lambda>i. 3))" for i win
  proof -
    from paced_window_size [OF that] have "window_size win = 3" by auto
    then show ?thesis by (simp add: window_samples_const over_not_recorded)
  qed
  then have ds: "ds = []" unfolding ds_def by (rule stations_by_none)
  from paced_scan [OF _ length_sample_stations ds_def]
  obtain found w' where
    r: "scan_fm_stations (Some sample_ctx) (paced_world (Finite over_level) (\<lambda>i. 3)) =
       Some (Inr (sample_ctx\<lparr>center_freq := fmul (sweep_freq 99) (to_double 1000000),
                      station_list := ds @ drop (length ds) (station_list sample_ctx),
                      station_list_len := found\<rparr>, w'))"
    and u: "unat found = length ds"
    by auto
  have f: "found = 0" using word_of_unat [OF u] ds by simp
  from r f ds over_mean_above over_level_double show ?thesis
    by (simp add: stations_found_def)
qed

text \<open>
  \<^bold>\<open>C6.\<close> A constant reading below the threshold can still be recorded when it is within
  rounding distance of it: the running sum of seven readings one unit in the last place
  below \<open>0.0002\<close> rounds up three times, and the computed mean comes out one unit above
  the threshold (\<open>edge_signal_fills_list\<close>). What holds: if every reading is one
  constant of at most \<open>0.0001999999\<close>, and the clock shows 100 measurement windows of
  fewer than \<open>2^32\<close> samples each, \<open>rtl_get_fm_stations\<close> returns the count zero,
  leaves the caller's buffer as it was, and stores the length zero.
\<close>

theorem weak_signal_empty_list:
  assumes "length wins = 100" and "list_all window_ok wins"
    and "\<forall>win\<in>set wins. window_size win < 2 ^ 32"
    and "clock w = concat (map window_clock wins) @ rest"
    and "\<forall>i. level w i = c" and "c \<le> Finite (1999999 / 10 ^ 10)"
    and "length (station_list ctx) = MAX_FM_STATIONS"
    and "MAX_FM_STATIONS \<le> length stations_out"
  shows "\<exists>ctx' w'. rtl_get_fm_stations (Some ctx) stations_out w
       = Some (Inr (0, stations_out, ctx', w'))
     \<and> station_list_len ctx' = 0 \<and> station_list ctx' = station_list ctx
     \<and> stations_found ctx' = []"
  using assms by (rule get_stations_weak_signal)

theorem weak_signal_empty_list_witness:
  "\<exists>ctx' w'.
     rtl_get_fm_stations (Some sample_ctx) zero_buffer (paced_world (Finite (1 / 10000)) (\<lambda>i. 3))
       = Some (Inr (0, zero_buffer, ctx', w'))
     \<and> station_list_len ctx' = 0 \<and> station_list ctx' = station_list sample_ctx
     \<and> stations_found ctx' = []"
proof (rule weak_signal_empty_list)
  show "length (paced_windows (\<lambda>i. 3)) = 100" by simp
  show "list_all window_ok (paced_windows (\<lambda>i. 3))" by (rule paced_windows_ok) simp
  show "\<forall>win\<in>set (paced_windows (\<lambda>i. 3)). window_size win < 2 ^ 32"
    by (auto dest: paced_window_size)
  show "clock (paced_world (Finite (1 / 10000)) (\<lambda>i. 3))
      = concat (map window_clock (paced_windows (\<lambda>i. 3))) @ []"
    by (rule clock_paced_world)
  show "\<forall>i. level (paced_world (Finite (1 / 10000)) (\<lambda>i. 3)) i = Finite (1 / 10000)"
    by (simp add: paced_world_def)
  show "Finite (1 / 10000) \<le> Finite (1999999 / 10 ^ 10)" by simp
  show "length (station_list sample_ctx) = MAX_FM_STATIONS" by (rule length_sample_stations)
  show "MAX_FM_STATIONS \<le> length zero_buffer" by (rule length_zero_buffer)
qed

theorem edge_signal_fills_list:
  "\<exists>buf ctx' w'.
     rtl_get_fm_stations (Some sample_ctx) zero_buffer (paced_world (Finite edge_level) (\<lambda>i. 7))
       = Some (Inr (100, buf, ctx', w'))
     \<and> is_double edge_level \<and> Finite edge_level < POWER_THRESHOLD
     \<and> station_list_len ctx' = 100 \<and> buf = map sweep_freq [0..<100]"
proof -
  define ds where
    "ds = stations_by step_records (\<lambda>k. Finite edge_level) 0 0 (paced_windows (\<lambda>i. 7))"
  have "step_records (window_samples (\<lambda>k. Finite edge_level) i win)"
    if "win \<in> set (paced_windows (\<lambda>i. 7))" for i win
  proof -
    from paced_window_size [OF that] have "window_size win = 7" by auto
    then show ?thesis by (simp add: window_samples_const edge_recorded)
  qed
  then have "ds = map sweep_freq [0..<0 + length (paced_windows (\<lambda>i. 7))]"
    unfolding ds_def by (rule stations_by_all)
  then have ds: "ds = map sweep_freq [0..<100]" by simp
  then have len: "length ds = 100" by simp
  from paced_get_stations [OF _ length_sample_stations length_zero_buffer ds_def]
  obtain found w' where
    r: "rtl_get_fm_stations (Some sample_ctx) zero_buffer
          (paced_world (Finite edge_level) (\<lambda>i. 7)) =
       Some (Inr (found, ds @ drop (length ds) zero_buffer,
         sample_ctx\<lparr>center_freq := fmul (sweep_freq 99) (to_double 1000000),
              station_list := ds @ drop (length ds) (station_list sample_ctx),
              station_list_len := found\<rparr>, w'))"
    and u: "unat found = length ds"
    by auto
  have f: "found = 100" using word_of_unat [OF u] len by simp
  have "ds @ drop (length ds) zero_buffer = map sweep_freq [0..<100]"
    using len ds by (simp add: zero_buffer_def)
  with r f edge_level_below edge_level_double show ?thesis by simp
qed

text \<open>
  \<^bold>\<open>C7.\<close> That a concurrent reader never sees a half-replaced station list is a
  statement about interleavings of threads under \<^verbatim>\<open>station_list_mtx\<close>. The functions
  above are sequential: \<open>scan_fm_stations\<close> stores the list and its length in one step,
  and no theorem here speaks about a second thread.
\<close>

text \<open>
  \<^bold>\<open>C8.\<close> \<open>rtl_set_fm\<close> followed by \<open>rtl_get_fm\<close> is not the identity. The product
  \<open>f * 1e6\<close> and the quotient by \<open>1e6\<close> are each rounded, and the value read back can
  differ from \<open>f\<close>: for 90.10000000000004 MHz, the twelfth sweep frequency, it is one
  unit in the last place lower. And the product can overflow: for \<open>1e303\<close> the centre
  frequency stored is infinite, and infinity is read back (\<open>roundtrip_not_identity\<close>).

  What holds: for every finite double \<open>f\<close> whose product with \<open>10^6\<close> does not exceed
  the largest double, the value read back is finite and differs from \<open>f\<close> by no more
  than the two roundings allow, \<open>|f| (2^-52 + 2^-106)\<close>. The source block is taken to
  report the frequency it was given.
\<close>

theorem roundtrip_up_to_rounding:
  assumes "is_double x" and "\<bar>x\<bar> * 1000000 \<le> DBL_MAX"
  shows "\<exists>ctx' y. rtl_set_fm (Some ctx) (Finite x) = Inr ctx'
     \<and> rtl_get_fm (Some ctx') = Inr (Finite y)
     \<and> \<bar>y - x\<bar> \<le> \<bar>x\<bar> / 2 ^ 52 + \<bar>x\<bar> / 2 ^ 106"
proof -
  from assms(1) have "fl x = x" by (simp add: is_double_def)
  then show ?thesis using assms(2) by (rule roundtrip)
qed

theorem roundtrip_up_to_rounding_witness:
  "\<exists>ctx' y. rtl_set_fm (Some sample_ctx) (Finite (203 / 2)) = Inr ctx'
     \<and> rtl_get_fm (Some ctx') = Inr (Finite y)
     \<and> \<bar>y - 203 / 2\<bar> \<le> \<bar>203 / 2\<bar> / 2 ^ 52 + \<bar>203 / 2\<bar> / 2 ^ 106"
proof (rule roundtrip_up_to_rounding)
  have "fl (203 / 2) = of_int 7142427534032896 * 2 powi (6 - 52)"
    by (rule fl_eval) simp_all
  then have f: "fl (203 / 2) = 203 / 2" by simp
  have "\<bar>203 / 2 :: rat\<bar> * 1000000 \<le> 2 ^ 1023" by simp
  with DBL_MAX_ge show r: "\<bar>203 / 2 :: rat\<bar> * 1000000 \<le> DBL_MAX" by linarith
  then have "\<bar>203 / 2 :: rat\<bar> \<le> DBL_MAX" by simp
  with f show "is_double (203 / 2)" by (simp only: is_double_def simp_thms)
qed

theorem roundtrip_not_identity:
  "\<exists>ctx1 ctx2 x.
     sweep_freq 11 = Finite (6340223850407529 / 2 ^ 46)
     \<and> rtl_set_fm (Some sample_ctx) (sweep_freq 11) = Inr ctx1
     \<and> rtl_get_fm (Some ctx1) = Inr (Finite (6340223850407528 / 2 ^ 46))
     \<and> to_double (10 ^ 303) = Finite x
     \<and> rtl_set_fm (Some sample_ctx) (to_double (10 ^ 303)) = Inr ctx2
     \<and> center_freq ctx2 = Pos_inf
     \<and> rtl_get_fm (Some ctx2) = Inr Pos_inf"
  using roundtrip_inexact roundtrip_overflow by blast

text \<open>
  \<^bold>\<open>C9.\<close> \<open>rtl_get_fm_stations\<close> leaves the tuner on the last frequency of its sweep,
  whatever it was tuned to before: the centre frequency afterwards is the 100th sweep
  frequency, 107.70000000000029 MHz, converted to Hz, and \<open>rtl_get_fm\<close> reads that
  frequency back. The scan does not restore the earlier frequency.
\<close>

theorem scan_leaves_last_frequency:
  assumes "rtl_get_fm_stations (Some ctx) stations_out w = Some (Inr (n, buf, ctx', w'))"
  shows "center_freq ctx' = fmul (sweep_freq 99) (to_double 1000000)
     \<and> center_freq ctx' = Finite (7227624652800019 / 2 ^ 26)
     \<and> rtl_get_fm (Some ctx') = Inr (sweep_freq 99)
     \<and> sweep_freq 99 = Finite (7578713747934433 / 2 ^ 46)"
proof -
  from assms obtain w1 where "scan_fm_stations (Some ctx) w = Some (Inr (ctx', w1))"
    by (auto simp: rtl_get_fm_stations_def split: option.splits sum.splits)
  then have c: "center_freq ctx' = fmul (sweep_freq 99) (to_double 1000000)"
    by (rule scan_center_freq)
  then have g: "rtl_get_fm (Some ctx') = Inr (sweep_freq 99)"
    by (simp add: rtl_get_fm_def last_center_freq_mhz del: sweep_freq.simps)
  have "center_freq ctx' = Finite (7227624652800019 / 2 ^ 26)"
    unfolding c by (rule last_center_freq)
  with c g sweep_freq_99 show ?thesis by (simp only: simp_thms)
qed

theorem scan_leaves_last_frequency_witness:
  "\<exists>n buf ctx' w'.
     rtl_get_fm_stations (Some sample_ctx) zero_buffer (paced_world (Finite 1) (\<lambda>i. 3)) =
       Some (Inr (n, buf, ctx', w'))
     \<and> rtl_get_fm (Some sample_ctx) = Inr (Finite (7170575031703962 / 2 ^ 46))
     \<and> rtl_get_fm (Some ctx') = Inr (Finite (7578713747934433 / 2 ^ 46))
     \<and> center_freq ctx' = Finite (7227624652800019 / 2 ^ 26)"
proof -
  from paced_get_stations [OF _ length_sample_stations length_zero_buffer refl,
      of "\<lambda>i. 3" "Finite 1"]
  obtain n buf ctx' w' where
    r: "rtl_get_fm_stations (Some sample_ctx) zero_buffer (paced_world (Finite 1) (\<lambda>i. 3)) =
       Some (Inr (n, buf, ctx', w'))"
    by auto
  note t = scan_leaves_last_frequency [OF r]
  from t have "rtl_get_fm (Some ctx') = Inr (sweep_freq 99)"
    and s: "sweep_freq 99 = Finite (7578713747934433 / 2 ^ 46)"
    and c: "center_freq ctx' = Finite (7227624652800019 / 2 ^ 26)"
    by blast+
  then have "rtl_get_fm (Some ctx') = Inr (Finite (7578713747934433 / 2 ^ 46))"
    by (simp only:)
  with r c sample_ctx_mhz show ?thesis by blast
qed

text \<open>
  \<^bold>\<open>C10.\<close> The first test of the loop condition does not read 0 ms: it reads the clock
  again after the start time was taken, and the two readings can be 200 ms apart. Then the
  window takes no sample and the frequency is skipped (\<open>window_without_samples\<close>).
  What holds, with \<open>s\<close> the start reading and \<open>t\<close> the reading of the first loop test:
  \<^item> the division of the mean is never a division by zero, since it is guarded by the
    test of the counter;
  \<^item> when the first test reads less than 200 ms, a window that ends has taken at least
    one sample, its counter is the number of samples modulo \<open>2^32\<close>, and the counter is
    at least one when the window took fewer than \<open>2^32\<close> samples;
  \<^item> when the first test reads 200 ms or more, the window ends with the sum and the
    count at zero and without reading the level, and the step of the sweep leaves the
    stations found so far as they were: the frequency is skipped.
\<close>

theorem mean_division_guarded:
  "scan_step tuner freq st w \<noteq> Some (Inl Division_by_zero)
   \<and> (clock w = s # t # rest \<longrightarrow> elapsed_ms s t < MEASURE_MS
        \<longrightarrow> measure_window w = Some ((sm, n), w')
        \<longrightarrow> level_calls w < level_calls w'
          \<and> n = of_nat (level_calls w' - level_calls w)
          \<and> (level_calls w' - level_calls w < 2 ^ 32 \<longrightarrow> 0 < n))
   \<and> (clock w = s # t # rest \<longrightarrow> \<not> elapsed_ms s t < MEASURE_MS
        \<longrightarrow> measure_window w = Some ((Finite 0, 0), w\<lparr>clock := rest\<rparr>)
          \<and> scan_step (Some ctx) freq st w =
              Some (Inr (ctx\<lparr>center_freq := fmul freq (to_double 1000000)\<rparr>, st,
                (sleep_for SWITCH_DELAY_MS w)\<lparr>clock := rest\<rparr>)))"
proof -
  have 1: "scan_step tuner freq st w \<noteq> Some (Inl Division_by_zero)"
    by (rule scan_step_no_division_by_zero)
  have 2: "clock w = s # t # rest \<longrightarrow> elapsed_ms s t < MEASURE_MS
      \<longrightarrow> measure_window w = Some ((sm, n), w')
      \<longrightarrow> level_calls w < level_calls w'
        \<and> n = of_nat (level_calls w' - level_calls w)
        \<and> (level_calls w' - level_calls w < 2 ^ 32 \<longrightarrow> 0 < n)"
    using window_with_first_sample [of w s t rest sm n w'] by blast
  have 3: "clock w = s # t # rest \<longrightarrow> \<not> elapsed_ms s t < MEASURE_MS
      \<longrightarrow> measure_window w = Some ((Finite 0, 0), w\<lparr>clock := rest\<rparr>)
        \<and> scan_step (Some ctx) freq st w =
            Some (Inr (ctx\<lparr>center_freq := fmul freq (to_double 1000000)\<rparr>, st,
              (sleep_for SWITCH_DELAY_MS w)\<lparr>clock := rest\<rparr>))"
    using window_expired_at_entry [of w s t rest]
      scan_step_expired_at_entry [of w s t rest ctx freq st]
    by blast
  from 1 2 3 show ?thesis by (intro conjI)
qed

theorem mean_division_guarded_witness:
  "(\<exists>sm w'. measure_window (paced_world (Finite 1) (\<lambda>i. 3)) = Some ((sm, 3), w')
      \<and> level_calls w' = 3)
   \<and> (\<exists>rest. clock (paced_world (Finite 1) first_stalled) = 0 # 200000000 # rest
        \<and> measure_window (paced_world (Finite 1) first_stalled)
            = Some ((Finite 0, 0), paced_world (Finite 1) first_stalled\<lparr>clock := rest\<rparr>)
        \<and> scan_step (Some sample_ctx) BAND_START (0, zero_buffer)
            (paced_world (Finite 1) first_stalled)
          = Some (Inr (sample_ctx\<lparr>center_freq := fmul BAND_START (to_double 1000000)\<rparr>,
              (0, zero_buffer),
              (sleep_for SWITCH_DELAY_MS (paced_world (Finite 1) first_stalled))\<lparr>clock := rest\<rparr>)))
   \<and> scan_step (Some sample_ctx) BAND_START (0, zero_buffer) (paced_world (Finite 1) (\<lambda>i. 3))
        \<noteq> Some (Inl Division_by_zero)"
proof -
  let ?w = "paced_world (Finite 1) (\<lambda>i. 3)"
  let ?v = "paced_world (Finite 1) first_stalled"
  obtain rest where c: "clock ?w = 0 # 1000000 # rest"
    by (simp add: paced_clock_head upt_conv_Cons)
  have e: "elapsed_ms 0 1000000 < MEASURE_MS" by (simp add: elapsed_ms_def MEASURE_MS_def)
  have "paced_windows (\<lambda>i. 3) = paced_window 3 0 # map (\<lambda>i. paced_window 3 i) [1..<100]"
    using upt_conv_Cons [of 0 100] by (simp add: paced_windows_def)
  then have "clock ?w = window_clock (paced_window 3 0)
      @ concat (map window_clock (map (\<lambda>i. paced_window 3 i) [1..<100]))"
    by (simp add: paced_world_def)
  from measure_window_window [OF this window_ok_paced]
  obtain sm w' where m: "measure_window ?w = Some ((sm, 3), w')" and l: "level_calls w' = 3"
    by (auto simp: paced_world_def)
  from mean_division_guarded [of _ _ _ ?w 0 1000000 rest sm 3 w'] c e m
  have 1: "level_calls ?w < level_calls w'" by blast
  obtain rest' where c': "clock ?v = 0 # 200000000 # rest'"
    by (simp add: paced_clock_head first_stalled_def)
  have e': "\<not> elapsed_ms 0 200000000 < MEASURE_MS"
    by (simp add: elapsed_ms_def MEASURE_MS_def)
  from mean_division_guarded [of _ _ _ ?v 0 200000000 rest' _ _ _ sample_ctx] c' e'
  have 2: "measure_window ?v = Some ((Finite 0, 0), ?v\<lparr>clock := rest'\<rparr>)"
    and 3: "scan_step (Some sample_ctx) freq st ?v =
        Some (Inr (sample_ctx\<lparr>center_freq := fmul freq (to_double 1000000)\<rparr>, st,
          (sleep_for SWITCH_DELAY_MS ?v)\<lparr>clock := rest'\<rparr>))" for freq st
    by blast+
  from mean_division_guarded [of "Some sample_ctx" BAND_START "(0, zero_buffer)" ?w]
  have 4: "scan_step (Some sample_ctx) BAND_START (0, zero_buffer) ?w
      \<noteq> Some (Inl Division_by_zero)" by blast
  from m l c' 2 3 4 show ?thesis by blast
qed

theorem window_without_samples:
  "\<exists>rest. clock (paced_world (Finite 1) first_stalled) = 0 # 200000000 # rest
     \<and> elapsed_ms 0 200000000 = 200
     \<and> measure_window (paced_world (Finite 1) first_stalled)
         = Some ((Finite 0, 0), paced_world (Finite 1) first_stalled\<lparr>clock := rest\<rparr>)
     \<and> scan_step (Some sample_ctx) BAND_START (0, zero_buffer)
         (paced_world (Finite 1) first_stalled)
       = Some (Inr (sample_ctx\<lparr>center_freq := fmul BAND_START (to_double 1000000)\<rparr>,
           (0, zero_buffer),
           (sleep_for SWITCH_DELAY_MS (paced_world (Finite 1) first_stalled))\<lparr>clock := rest\<rparr>))"
proof -
  let ?v = "paced_world (Finite 1) first_stalled"
  obtain rest where c: "clock ?v = 0 # 200000000 # rest"
    by (simp add: paced_clock_head first_stalled_def)
  have e: "elapsed_ms 0 200000000 = 200" by (simp add: elapsed_ms_def)
  then have n: "\<not> elapsed_ms 0 200000000 < MEASURE_MS" by (simp add: MEASURE_MS_def)
  from window_expired_at_entry [OF c n] scan_step_expired_at_entry [OF c n] c e
  show ?thesis by simp
qed

end
